theory Spec2Isabelle
  imports Complex_Main "HOL-Library.Word" "HOL-Library.AList"
begin

section \<open>Buffers\<close>

text \<open>
  A Node \<open>Buffer\<close> is a list of bytes. \<open>buffer[i]\<close> is \<open>undefined\<close> out of range
  (\<open>None\<close> here), and \<open>subarray(start, end)\<close> clamps its indices to the buffer, as
  \<open>take\<close> and \<open>drop\<close> do.
\<close>

type_synonym byte = "8 word"
type_synonym buffer = "byte list"

definition readByte :: "buffer \<Rightarrow> nat \<Rightarrow> byte option" where
  "readByte buffer i = (if i < length buffer then Some (buffer ! i) else None)"

definition subarray :: "buffer \<Rightarrow> nat \<Rightarrow> nat \<Rightarrow> buffer" where
  "subarray buffer start end = take (end - start) (drop start buffer)"

definition subarrayFrom :: "buffer \<Rightarrow> nat \<Rightarrow> buffer" where
  "subarrayFrom buffer start = drop start buffer"

section \<open>Frame stream demultiplexer\<close>

text \<open>
  \<open>FfmpegUtil.parseJpegFrames\<close> (README_OPTIMIZATION.md, lines 383 to 407). The \<open>for\<close>
  loop is the recursion \<open>scanFrames\<close> on the loop variable \<open>i\<close>, carrying
  \<open>currentFrameStart\<close> and \<open>frames\<close>; \<open>isSoiAt\<close> is the test
  \<open>buffer[i] === 0xff && buffer[i + 1] === 0xd8\<close>, \<open>pushLastFrame\<close> the statement after
  the loop, and the filter the last line.
\<close>

definition isSoiAt :: "buffer \<Rightarrow> nat \<Rightarrow> bool" where
  "isSoiAt buffer i \<longleftrightarrow> readByte buffer i = Some 0xff \<and> readByte buffer (i + 1) = Some 0xd8"

function scanFrames :: "buffer \<Rightarrow> nat \<Rightarrow> nat \<Rightarrow> buffer list \<Rightarrow> nat \<times> buffer list" where
  "scanFrames buffer i currentFrameStart frames =
     (if int i < int (length buffer) - 1 then
        (if isSoiAt buffer i then
           scanFrames buffer (i + 1) i
             (if i > currentFrameStart \<and> currentFrameStart > 0
              then frames @ [subarray buffer currentFrameStart i]
              else frames)
         else scanFrames buffer (i + 1) currentFrameStart frames)
      else (currentFrameStart, frames))"
  by pat_completeness auto
termination
  by (relation "measure (\<lambda>(buffer, i, currentFrameStart, frames). length buffer - i)") auto

declare scanFrames.simps [simp del]

definition pushLastFrame :: "buffer \<Rightarrow> nat \<times> buffer list \<Rightarrow> buffer list" where
  "pushLastFrame buffer st =
     (case st of (currentFrameStart, frames) \<Rightarrow>
        if currentFrameStart < length buffer
        then frames @ [subarrayFrom buffer currentFrameStart]
        else frames)"

definition parseJpegFrames :: "buffer \<Rightarrow> buffer list" where
  "parseJpegFrames buffer =
     filter (\<lambda>f. length f > 0) (pushLastFrame buffer (scanFrames buffer 0 0 []))"


section \<open>Color utilities\<close>

text \<open>
  The channels of a swatch are doubles, that is, real numbers; \<open>Math.round\<close> and
  \<open>toString(16)\<close> are exact on them.
\<close>

text \<open>
  \<open>ColorUtil\<close> (color.util.ts) and the types of node-vibrant (node-vibrant.d.ts). A missing
  swatch is \<open>None\<close>; \<open>a || b\<close> on swatches is \<open>orElse\<close>. \<open>Math.round\<close> rounds
  halves up. \<open>toString(16)\<close> writes an integer in lower-case hexadecimal. A \<open>throw\<close> is a
  result \<open>Inl (Error message)\<close>; the \<open>catch\<close> of \<open>extractDominantColor\<close> wraps every
  message.
\<close>

record swatch =
  rgb :: "real \<times> real \<times> real"
  population :: real

record palette =
  Vibrant :: "swatch option"
  Muted :: "swatch option"
  DarkVibrant :: "swatch option"
  DarkMuted :: "swatch option"
  LightVibrant :: "swatch option"
  LightMuted :: "swatch option"

datatype error = Error string

definition orElse :: "'a option \<Rightarrow> 'a option \<Rightarrow> 'a option" where
  "orElse a b = (case a of Some x \<Rightarrow> Some x | None \<Rightarrow> b)"

definition mathRound :: "real \<Rightarrow> int" where
  "mathRound x = \<lfloor>x + 1 / 2\<rfloor>"

definition hexDigit :: "nat \<Rightarrow> char" where
  "hexDigit d = ''0123456789abcdef'' ! d"

function toHexNat :: "nat \<Rightarrow> string" where
  "toHexNat n = (if n < 16 then [hexDigit n] else toHexNat (n div 16) @ [hexDigit (n mod 16)])"
  by pat_completeness auto
termination
  by (relation "measure id") auto

declare toHexNat.simps [simp del]

definition toString16 :: "int \<Rightarrow> string" where
  "toString16 n = (if n < 0 then ''-'' @ toHexNat (nat (- n)) else toHexNat (nat n))"

definition toHex :: "real \<Rightarrow> string" where
  "toHex v = (let hex = toString16 (mathRound v) in if length hex = 1 then ''0'' @ hex else hex)"

definition upperChar :: "char \<Rightarrow> char" where
  "upperChar c =
     (case map_of (zip ''abcdefghijklmnopqrstuvwxyz'' ''ABCDEFGHIJKLMNOPQRSTUVWXYZ'') c of
        Some u \<Rightarrow> u
      | None \<Rightarrow> c)"

definition toUpperCase :: "string \<Rightarrow> string" where
  "toUpperCase s = map upperChar s"

definition rgbToHex :: "real \<Rightarrow> real \<Rightarrow> real \<Rightarrow> string" where
  "rgbToHex r g b = toUpperCase (''#'' @ toHex r @ toHex g @ toHex b)"

definition selectSwatch :: "palette \<Rightarrow> swatch option" where
  "selectSwatch p =
     orElse (Vibrant p) (orElse (Muted p) (orElse (DarkVibrant p)
       (orElse (DarkMuted p) (orElse (LightVibrant p) (LightMuted p)))))"

definition wrapExtractError :: "string \<Rightarrow> error" where
  "wrapExtractError message = Error (''Failed to extract color: '' @ message)"

definition extractDominantColor :: "(buffer \<Rightarrow> string + palette) \<Rightarrow> buffer \<Rightarrow> error + string" where
  "extractDominantColor getPalette imageBuffer =
     (case getPalette imageBuffer of
        Inl message \<Rightarrow> Inl (wrapExtractError message)
      | Inr p \<Rightarrow>
          (case selectSwatch p of
             None \<Rightarrow> Inl (wrapExtractError ''No color swatch found in palette'')
           | Some vibrantSwatch \<Rightarrow>
               (case rgb vibrantSwatch of (r, g, b) \<Rightarrow> Inr (rgbToHex r g b))))"


section \<open>JavaScript numbers\<close>

text \<open>
  A JavaScript number is an IEEE 754 double. A finite double is a real number, and every
  arithmetic operation gives the double nearest to the exact result, ties going to the even
  significand: \<open>binary64\<close>. It scales the magnitude into \<open>[2^52, 2^53)\<close> (the exponent
  stops at \<open>-1074\<close>, where the subnormal numbers begin), rounds to an integer and scales
  back; the 2200 steps allowed for the scaling are more than the exponent range of a double
  needs. Results beyond the largest double are not modelled: a division by 1000 and a sum
  with 0.01 of finite doubles never reach them.
  \<open>a / b\<close>, \<open>a - b\<close> and \<open>a + b\<close> of the code are \<open>jsDivide\<close>, \<open>jsMinus\<close> and
  \<open>jsPlus\<close>, and the literal \<open>0.01\<close> is the double \<open>hundredth\<close>.
\<close>

definition roundHalfEven :: "real \<Rightarrow> int" where
  "roundHalfEven m =
     (let f = \<lfloor>m\<rfloor>; d = m - of_int f
      in if d < 1 / 2 then f else if d > 1 / 2 then f + 1 else if even f then f else f + 1)"

fun scaleSignificand :: "nat \<Rightarrow> real \<Rightarrow> int \<Rightarrow> real \<times> int" where
  "scaleSignificand 0 m e = (m, e)"
| "scaleSignificand (Suc n) m e =
     (if m \<ge> 2 ^ 53 then scaleSignificand n (m / 2) (e + 1)
      else if m < 2 ^ 52 \<and> e > - 1074 then scaleSignificand n (m * 2) (e - 1)
      else (m, e))"

definition pow2 :: "int \<Rightarrow> real" where
  "pow2 e = (if e \<ge> 0 then 2 ^ nat e else 1 / 2 ^ nat (- e))"

definition binary64 :: "real \<Rightarrow> real" where
  "binary64 x =
     (if x = 0 then 0
      else (case scaleSignificand 2200 \<bar>x\<bar> 0 of
              (m, e) \<Rightarrow> sgn x * of_int (roundHalfEven m) * pow2 e))"

definition jsDivide :: "real \<Rightarrow> real \<Rightarrow> real" where
  "jsDivide a b = binary64 (a / b)"

definition jsMinus :: "real \<Rightarrow> real \<Rightarrow> real" where
  "jsMinus a b = binary64 (a - b)"

definition jsPlus :: "real \<Rightarrow> real \<Rightarrow> real" where
  "jsPlus a b = binary64 (a + b)"

definition hundredth :: real where
  "hundredth = binary64 (1 / 100)"

section \<open>External collaborators\<close>

text \<open>
  The decoder, the palette library, the URL checks and the clock are outside the code that is
  verified; they are parameters. Every decoder process that is started is recorded as a
  \<open>decoderCall\<close>, so that the number of invocations can be stated.

  \<^item> \<open>isValidVideoUrl\<close>, \<open>resolveVideoUrl\<close>: the private helpers of \<open>FfmpegUtil\<close> (URL
    parsing and an HTTP request);
  \<^item> \<open>ensureTempDir\<close>: the message of the error raised when the directory cannot be
    made, if any;
  \<^item> \<open>seekDecode\<close>: the single-frame decoder process, which fails, or writes a file that
    cannot be read, or gives the frame;
  \<^item> \<open>pipeDecode\<close>: the batch decoder process with its output options, which fails with a
    message or gives the concatenated chunks of its output and the elapsed time;
  \<^item> \<open>getPalette\<close>: \<open>Vibrant.from(buffer).getPalette()\<close>, which fails with a message or
    gives a palette;
  \<^item> \<open>seekMs\<close>, \<open>paletteMs\<close>: the measured durations;
  \<^item> \<open>numberToString\<close>: the string of a number from \<open>10^21\<close> on.
\<close>

datatype decoderCall =
    SeekCall string real
  | PipeCall string "string list"

datatype seekOutcome =
    SeekFailed string
  | ReadFailed string
  | SeekDone buffer

record world =
  isValidVideoUrl :: "string \<Rightarrow> bool"
  resolveVideoUrl :: "string \<Rightarrow> string"
  ensureTempDir :: "string option"
  seekDecode :: "string \<Rightarrow> real \<Rightarrow> seekOutcome"
  seekMs :: "string \<Rightarrow> real \<Rightarrow> real"
  pipeDecode :: "string \<Rightarrow> string list \<Rightarrow> string + buffer \<times> real"
  getPalette :: "buffer \<Rightarrow> string + palette"
  paletteMs :: "buffer \<Rightarrow> real"
  numberToString :: "real \<Rightarrow> string"

type_synonym 'a traced = "decoderCall list \<times> (error + 'a)"

section \<open>Single-frame decode\<close>

text \<open>
  \<open>FfmpegUtil.extractFrame\<close> (ffmpeg.util.ts, lines 34 to 94): the URL check, the
  resolution of page URLs, the temporary directory, then one decoder process that seeks to
  the timestamp in seconds and writes one frame, which is read back.
\<close>

definition extractFrame :: "world \<Rightarrow> string \<Rightarrow> real \<Rightarrow> buffer traced" where
  "extractFrame w videoUrl timestampMs =
     (if \<not> isValidVideoUrl w videoUrl then
        ([], Inl (Error (''Invalid video URL. Please provide either a direct link to a video file ''
           @ ''(e.g., .mp4, .avi, .mov) or a Pexels video page URL (e.g., https://www.pexels.com/video/...)'')))
      else
        let resolvedUrl = resolveVideoUrl w videoUrl in
        (case ensureTempDir w of
           Some message \<Rightarrow> ([], Inl (Error message))
         | None \<Rightarrow>
             let timestampSeconds = jsDivide timestampMs 1000 in
             ([SeekCall resolvedUrl timestampSeconds],
              (case seekDecode w resolvedUrl timestampSeconds of
                 SeekDone frameBuffer \<Rightarrow> Inr frameBuffer
               | ReadFailed message \<Rightarrow>
                   Inl (Error (''Failed to read extracted frame: '' @ message))
               | SeekFailed message \<Rightarrow>
                   Inl (Error (''FFmpeg extraction failed: '' @ message
                     @ ''. Make sure FFmpeg is installed and the video URL is accessible.''))))))"

text \<open>
  Modelled from the spec: the single-frame decode that returns the frame together with its
  decode duration. The batch code and the repository destructure
  \<open>{ frameBuffer, ffmpegMs }\<close> from \<open>FfmpegUtil.extractFrame\<close>, but the
  \<open>extractFrame\<close> of ffmpeg.util.ts resolves the bare frame, and no function of that
  shape is among the sources. The spec has the single-timestamp path "issue one direct
  single-frame decode" and gives every result a decode duration: this is \<open>extractFrame\<close>
  above, one decoder invocation, with the measured duration (read from the world) beside
  the frame.
\<close>

definition extractFrameTimed :: "world \<Rightarrow> string \<Rightarrow> real \<Rightarrow> (buffer \<times> real) traced" where
  "extractFrameTimed w videoUrl timestampMs =
     (case extractFrame w videoUrl timestampMs of
        (calls, Inl e) \<Rightarrow> (calls, Inl e)
      | (calls, Inr frameBuffer) \<Rightarrow>
          (calls, Inr (frameBuffer, seekMs w (resolveVideoUrl w videoUrl) (jsDivide timestampMs 1000))))"

text \<open>
  Modelled from the spec: the dominant-colour extraction that returns the colour together
  with its extraction duration. The repository destructures \<open>{ color, vibrantMs }\<close> from
  \<open>ColorUtil.extractDominantColor\<close>, but the \<open>extractDominantColor\<close> of color.util.ts
  resolves the bare colour string, and no function of that shape is among the sources. The
  spec has the palette selector turn "one frame buffer into one hex color" and gives every
  result "one extraction duration per frame": this is \<open>extractDominantColor\<close> above with
  the measured duration (read from the world) beside the colour.
\<close>

definition extractDominantColorTimed :: "world \<Rightarrow> buffer \<Rightarrow> error + string \<times> real" where
  "extractDominantColorTimed w imageBuffer =
     (case extractDominantColor (getPalette w) imageBuffer of
        Inl e \<Rightarrow> Inl e
      | Inr c \<Rightarrow> Inr (c, paletteMs w imageBuffer))"

section \<open>Selection predicate\<close>

text \<open>
  \<open>Number.prototype.toFixed(3)\<close> as ECMAScript defines it: the sign, then the integer
  \<open>n\<close> closest to \<open>1000 x\<close> (the larger of two), written in decimal, padded with zeros to
  four digits, with a point before the last three. From \<open>10^21\<close> on it returns the
  number's ordinary string, which is left to the world. \<open>Array.prototype.join\<close> is the
  loop over the elements that writes the separator before every element but the first.
\<close>

definition decimalDigit :: "nat \<Rightarrow> char" where
  "decimalDigit d = ''0123456789'' ! d"

function toDecimalNat :: "nat \<Rightarrow> string" where
  "toDecimalNat n =
     (if n < 10 then [decimalDigit n] else toDecimalNat (n div 10) @ [decimalDigit (n mod 10)])"
  by pat_completeness auto
termination
  by (relation "measure id") auto

declare toDecimalNat.simps [simp del]

definition toFixed3 :: "(real \<Rightarrow> string) \<Rightarrow> real \<Rightarrow> string" where
  "toFixed3 bigToString x0 =
     (let s = (if x0 < 0 then ''-'' else []);
          x = (if x0 < 0 then - x0 else x0)
      in if x \<ge> 10 ^ 21 then s @ bigToString x
         else
           let n = nat \<lfloor>x * 1000 + 1 / 2\<rfloor>;
               m0 = toDecimalNat n;
               m = (if length m0 \<le> 3 then replicate (3 + 1 - length m0) (CHR ''0'') @ m0 else m0);
               k = length m
           in s @ take (k - 3) m @ ''.'' @ drop (k - 3) m)"

definition joinStep :: "string \<Rightarrow> string \<Rightarrow> nat \<times> string \<Rightarrow> nat \<times> string" where
  "joinStep sep element st =
     (case st of (k, R) \<Rightarrow> (k + 1, (if k > 0 then R @ sep else R) @ element))"

definition join :: "string \<Rightarrow> string list \<Rightarrow> string" where
  "join sep xs = snd (fold (joinStep sep) xs (0, []))"

definition rangeTest :: "world \<Rightarrow> real \<Rightarrow> string" where
  "rangeTest w ts =
     ''(gte(t'' @ [CHR 0x5C] @ '','' @ toFixed3 (numberToString w) (jsMinus ts hundredth)
       @ '')*lte(t'' @ [CHR 0x5C] @ '','' @ toFixed3 (numberToString w) (jsPlus ts hundredth) @ ''))''"

definition selectExpression :: "world \<Rightarrow> real list \<Rightarrow> string" where
  "selectExpression w timestampsMs =
     (let timestampsSeconds = map (\<lambda>ms. jsDivide ms 1000) timestampsMs
      in join ''+'' (map (rangeTest w) timestampsSeconds))"

definition outputOptions :: "string \<Rightarrow> string list" where
  "outputOptions expr =
     [''-vf'', ''select='' @ [CHR 0x27] @ expr @ [CHR 0x27] @ '',scale=64:-1'',
      ''-vsync'', '' 0'', ''-vcodec'', ''mjpeg'', ''-q:v'', ''5'']"

section \<open>Batch frame extraction\<close>

text \<open>
  \<open>FfmpegUtil.extractMultipleFrames\<close> (README_OPTIMIZATION.md, lines 275 to 375). A
  JavaScript \<open>Map\<close> keeps its entries in the order in which the keys were first set, and
  \<open>set\<close> on a key that is present replaces the value in place: an association list with
  \<open>AList.update\<close>. The \<open>for\<close> loop over the timestamps is a fold over the indices.
\<close>

definition mapSet :: "'k \<Rightarrow> 'v \<Rightarrow> ('k \<times> 'v) list \<Rightarrow> ('k \<times> 'v) list" where
  "mapSet k v m = AList.update k v m"

definition buildFrameMap :: "real list \<Rightarrow> buffer list \<Rightarrow> (real \<times> buffer) list" where
  "buildFrameMap timestampsMs frames =
     fold (\<lambda>i frameMap.
             if i < length frames then mapSet (timestampsMs ! i) (frames ! i) frameMap
             else frameMap)
          [0..<length timestampsMs] []"

definition extractMultipleFrames ::
  "world \<Rightarrow> string \<Rightarrow> real list \<Rightarrow> ((real \<times> buffer) list \<times> real) traced" where
  "extractMultipleFrames w videoUrl timestampsMs =
     (if \<not> isValidVideoUrl w videoUrl then
        ([], Inl (Error (''Invalid video URL. Please provide a direct link to a video file (e.g., .mp4, .avi, .mov). ''
           @ ''Webpage URLs are not supported.'')))
      else if length timestampsMs = 0 then ([], Inl (Error ''No timestamps provided''))
      else if length timestampsMs = 1 then
        (case extractFrameTimed w videoUrl (timestampsMs ! 0) of
           (calls, Inl e) \<Rightarrow> (calls, Inl e)
         | (calls, Inr (frameBuffer, fMs)) \<Rightarrow>
             (calls, Inr ([(timestampsMs ! 0, frameBuffer)], fMs)))
      else
        let options = outputOptions (selectExpression w timestampsMs) in
        ([PipeCall videoUrl options],
         (case pipeDecode w videoUrl options of
            Inl message \<Rightarrow>
              Inl (Error (''FFmpeg batch extraction failed: '' @ message
                @ ''. Make sure FFmpeg is installed and the video URL is accessible.''))
          | Inr (output, fMs) \<Rightarrow>
              let frames = parseJpegFrames output in
              if length frames = 0 then Inl (Error ''FFmpeg returned no frames'')
              else Inr (buildFrameMap timestampsMs frames, fMs))))"

section \<open>Repository layer\<close>

text \<open>
  \<open>VideoProcessorRepository\<close> (README_OPTIMIZATION.md, lines 444 to 506). The colour tasks
  run concurrently and \<open>Promise.all\<close> rejects with the first rejection; here the first
  failing task in list order gives the error. \<open>Array.prototype.sort\<close> with the comparator
  \<open>a.timestamp - b.timestamp\<close> is a stable sort by timestamp.
\<close>

record colorResult =
  timestamp :: real
  color :: string
  ffmpegMs :: real
  vibrantMs :: real



fun promiseAll :: "(error + 'a) list \<Rightarrow> error + 'a list" where
  "promiseAll [] = Inr []"
| "promiseAll (Inl e # ps) = Inl e"
| "promiseAll (Inr x # ps) = (case promiseAll ps of Inl e \<Rightarrow> Inl e | Inr xs \<Rightarrow> Inr (x # xs))"

definition colorTask :: "world \<Rightarrow> real \<Rightarrow> real \<times> buffer \<Rightarrow> error + colorResult" where
  "colorTask w fMs entry =
     (case entry of (ts, frameBuffer) \<Rightarrow>
        (case extractDominantColorTimed w frameBuffer of
           Inl e \<Rightarrow> Inl e
         | Inr (c, vMs) \<Rightarrow>
             Inr \<lparr>timestamp = ts, color = c, ffmpegMs = fMs, vibrantMs = vMs\<rparr>))"

definition extractColorsFromFrames :: "world \<Rightarrow> string \<Rightarrow> real list \<Rightarrow> colorResult list traced" where
  "extractColorsFromFrames w videoUrl timestampsMs =
     (case extractMultipleFrames w videoUrl timestampsMs of
        (calls, Inl e) \<Rightarrow> (calls, Inl e)
      | (calls, Inr (frames, fMs)) \<Rightarrow>
          (case promiseAll (map (colorTask w fMs) frames) of
             Inl e \<Rightarrow> (calls, Inl e)
           | Inr results \<Rightarrow> (calls, Inr (sort_key timestamp results))))"

section \<open>A concrete world\<close>

text \<open>
  A world for evaluating the functions on concrete inputs: every URL is accepted, the batch
  decoder returns a fixed byte stream, and the palette of a frame has one Vibrant swatch
  whose red channel is the frame's third byte.
\<close>

definition redPalette :: "buffer \<Rightarrow> palette" where
  "redPalette f =
     \<lparr>Vibrant = Some \<lparr>rgb = (real (unat (f ! 2)), 0, 0), population = 1\<rparr>,
      Muted = None, DarkVibrant = None, DarkMuted = None,
      LightVibrant = None, LightMuted = None\<rparr>"

definition fixedWorld :: "buffer \<Rightarrow> world" where
  "fixedWorld output =
     \<lparr>isValidVideoUrl = (\<lambda>u. True),
      resolveVideoUrl = (\<lambda>u. u),
      ensureTempDir = None,
      seekDecode = (\<lambda>u t. SeekDone [0xff, 0xd8, 7]),
      seekMs = (\<lambda>u t. 40),
      pipeDecode = (\<lambda>u opts. Inr (output, 50)),
      getPalette = (\<lambda>f. Inr (redPalette f)),
      paletteMs = (\<lambda>f. 3),
      numberToString = (\<lambda>x. ''1e+21'')\<rparr>"

definition jpeg :: "byte \<Rightarrow> buffer" where
  "jpeg b = [0xff, 0xd8, b]"


section \<open>Reference definitions\<close>

text \<open>
  What the description of the system says, written independently of the code above, for
  comparison with it.
\<close>

definition startsWithSoi :: "buffer \<Rightarrow> bool" where
  "startsWithSoi f \<longleftrightarrow> take 2 f = [0xff, 0xd8]"

definition scanInv :: "buffer \<Rightarrow> nat \<Rightarrow> nat \<Rightarrow> buffer list \<Rightarrow> bool" where
  "scanInv buffer i c frames \<longleftrightarrow>
     c \<le> i \<and> (0 < c \<longrightarrow> isSoiAt buffer c) \<and>
     ((\<exists>p<i. isSoiAt buffer p) \<longrightarrow> isSoiAt buffer c) \<and>
     (\<forall>f\<in>set frames. f \<noteq> [] \<and> startsWithSoi f)"

definition wellFormedJpeg :: "buffer \<Rightarrow> bool" where
  "wellFormedJpeg b \<longleftrightarrow> isSoiAt b 0 \<and> (\<forall>p. isSoiAt b p \<longrightarrow> p = 0)"

definition upperHexDigit :: "nat \<Rightarrow> char" where
  "upperHexDigit d = ''0123456789ABCDEF'' ! d"

definition specHexByte :: "nat \<Rightarrow> string" where
  "specHexByte n = [upperHexDigit (n div 16), upperHexDigit (n mod 16)]"

fun firstPresent :: "'a option list \<Rightarrow> 'a option" where
  "firstPresent [] = None"
| "firstPresent (Some s # rest) = Some s"
| "firstPresent (None # rest) = firstPresent rest"

definition priorityOrder :: "palette \<Rightarrow> swatch option list" where
  "priorityOrder p =
     [Vibrant p, Muted p, DarkVibrant p, DarkMuted p, LightVibrant p, LightMuted p]"

definition swatchHex :: "swatch \<Rightarrow> string" where
  "swatchHex s = (case rgb s of (r, g, b) \<Rightarrow> rgbToHex r g b)"

definition noSwatchError :: error where
  "noSwatchError = Error ''Failed to extract color: No color swatch found in palette''"












definition noFramesError :: error where
  "noFramesError = Error ''FFmpeg returned no frames''"

definition lastIndexOf :: "real list \<Rightarrow> nat \<Rightarrow> real \<Rightarrow> nat \<Rightarrow> bool" where
  "lastIndexOf timestampsMs bound ts i \<longleftrightarrow>
     i < bound \<and> timestampsMs ! i = ts \<and> (\<forall>j. i < j \<and> j < bound \<longrightarrow> timestampsMs ! j \<noteq> ts)"


definition mutedLightPalette :: palette where
  "mutedLightPalette =
     \<lparr>Vibrant = None,
      Muted = Some \<lparr>rgb = (10, 20, 30), population = 5\<rparr>,
      DarkVibrant = None, DarkMuted = None,
      LightVibrant = Some \<lparr>rgb = (200, 100, 50), population = 9\<rparr>,
      LightMuted = None\<rparr>"

definition emptyPalette :: palette where
  "emptyPalette =
     \<lparr>Vibrant = None, Muted = None, DarkVibrant = None, DarkMuted = None,
      LightVibrant = None, LightMuted = None\<rparr>"


section \<open>The demultiplexer: scan invariant\<close>

lemma isSoiAt_iff:
  "isSoiAt buffer i \<longleftrightarrow> i + 1 < length buffer \<and> buffer ! i = 0xff \<and> buffer ! (i + 1) = 0xd8"
  by (auto simp: isSoiAt_def readByte_def)

lemma isSoiAt_not_adjacent: "isSoiAt buffer c \<Longrightarrow> \<not> isSoiAt buffer (Suc c)"
  by (auto simp: isSoiAt_iff)

lemma subarray_startsWithSoi:
  assumes "isSoiAt buffer c" "c + 2 \<le> i"
  shows "startsWithSoi (subarray buffer c i)"
proof -
  from assms have len: "c + 1 < length buffer" and b0: "buffer ! c = 0xff" and b1: "buffer ! Suc c = 0xd8"
    by (auto simp: isSoiAt_iff)
  have "take 2 (subarray buffer c i) = take 2 (drop c buffer)"
    using assms(2) by (simp add: subarray_def min_def)
  also have "\<dots> = [buffer ! c, buffer ! (c + 1)]"
    using len by (simp add: take_Suc_conv_app_nth numeral_2_eq_2)
  finally show ?thesis by (simp add: startsWithSoi_def b0 b1)
qed

lemma subarrayFrom_startsWithSoi:
  assumes "isSoiAt buffer c"
  shows "startsWithSoi (subarrayFrom buffer c)"
proof -
  from assms have len: "c + 1 < length buffer" and b0: "buffer ! c = 0xff" and b1: "buffer ! Suc c = 0xd8"
    by (auto simp: isSoiAt_iff)
  have "take 2 (drop c buffer) = [buffer ! c, buffer ! (c + 1)]"
    using len by (simp add: take_Suc_conv_app_nth numeral_2_eq_2)
  then show ?thesis by (simp add: startsWithSoi_def subarrayFrom_def b0 b1)
qed

lemma scanInv_step_soi:
  assumes "scanInv buffer i c frames" "isSoiAt buffer i"
  shows "scanInv buffer (i + 1) i
           (if i > c \<and> c > 0 then frames @ [subarray buffer c i] else frames)"
proof -
  have new: "c < i \<Longrightarrow> 0 < c \<Longrightarrow> subarray buffer c i \<noteq> [] \<and> startsWithSoi (subarray buffer c i)"
  proof -
    assume ci: "c < i" and c0: "0 < c"
    with assms have soi: "isSoiAt buffer c" by (simp add: scanInv_def)
    have "i \<noteq> Suc c" using isSoiAt_not_adjacent[OF soi] assms(2) by auto
    with ci have "c + 2 \<le> i" by simp
    from subarray_startsWithSoi[OF soi this] show ?thesis
      by (auto simp: startsWithSoi_def)
  qed
  show ?thesis using assms new by (auto simp: scanInv_def)
qed

lemma scanInv_step_skip:
  assumes "scanInv buffer i c frames" "\<not> isSoiAt buffer i"
  shows "scanInv buffer (i + 1) c frames"
  using assms by (auto simp: scanInv_def less_Suc_eq)

lemma scanFrames_inv:
  "scanInv buffer i c frames \<Longrightarrow> scanFrames buffer i c frames = (c', frames') \<Longrightarrow>
   (\<exists>j. scanInv buffer j c' frames' \<and> length buffer \<le> j + 1)"
proof (induction buffer i c frames rule: scanFrames.induct)
  case (1 buffer i c frames)
  show ?case
  proof (cases "int i < int (length buffer) - 1")
    case False
    with "1.prems" have "c' = c" "frames' = frames" by (simp_all add: scanFrames.simps)
    moreover from False have "length buffer \<le> i + 1" by simp
    ultimately show ?thesis using "1.prems"(1) by blast
  next
    case True
    show ?thesis
    proof (cases "isSoiAt buffer i")
      case soi: True
      let ?fr = "if i > c \<and> c > 0 then frames @ [subarray buffer c i] else frames"
      from "1.prems"(2) True soi have "scanFrames buffer (i + 1) i ?fr = (c', frames')"
        by (subst (asm) scanFrames.simps) simp
      from "1.IH"(1)[OF True soi scanInv_step_soi[OF "1.prems"(1) soi] this] show ?thesis .
    next
      case nosoi: False
      from "1.prems"(2) True nosoi have "scanFrames buffer (i + 1) c frames = (c', frames')"
        by (subst (asm) scanFrames.simps) simp
      from "1.IH"(2)[OF True nosoi scanInv_step_skip[OF "1.prems"(1) nosoi] this] show ?thesis .
    qed
  qed
qed

lemma scanInv_init: "scanInv buffer 0 0 []"
  by (simp add: scanInv_def)

lemma scanFrames_final:
  assumes "scanFrames buffer 0 0 [] = (c, frames)"
  shows "(0 < c \<longrightarrow> isSoiAt buffer c)"
    and "(\<exists>p. isSoiAt buffer p) \<longrightarrow> isSoiAt buffer c"
    and "\<forall>f\<in>set frames. f \<noteq> [] \<and> startsWithSoi f"
proof -
  from scanFrames_inv[OF scanInv_init assms] obtain j where
    inv: "scanInv buffer j c frames" and j: "length buffer \<le> j + 1" by blast
  show "0 < c \<longrightarrow> isSoiAt buffer c" using inv by (simp add: scanInv_def)
  show "\<forall>f\<in>set frames. f \<noteq> [] \<and> startsWithSoi f" using inv by (simp add: scanInv_def)
  show "(\<exists>p. isSoiAt buffer p) \<longrightarrow> isSoiAt buffer c"
  proof
    assume "\<exists>p. isSoiAt buffer p"
    then obtain p where p: "isSoiAt buffer p" by blast
    then have "p + 1 < length buffer" by (simp add: isSoiAt_iff)
    with j have "p < j" by simp
    with p inv show "isSoiAt buffer c" by (auto simp: scanInv_def)
  qed
qed

lemma scanFrames_no_soi:
  "\<forall>p\<ge>i. \<not> isSoiAt buffer p \<Longrightarrow> scanFrames buffer i c frames = (c, frames)"
proof (induction buffer i c frames rule: scanFrames.induct)
  case (1 buffer i c frames)
  show ?case
  proof (cases "int i < int (length buffer) - 1")
    case False
    then show ?thesis by (simp add: scanFrames.simps)
  next
    case True
    from "1.prems" have n: "\<not> isSoiAt buffer i" by simp
    from "1.prems" have "\<forall>p\<ge>i + 1. \<not> isSoiAt buffer p" by simp
    from "1.IH"(2)[OF True n this] True n show ?thesis
      by (subst scanFrames.simps) simp
  qed
qed


section \<open>RGB to hexadecimal\<close>

lemma hexDigit_table:
  "list_all (\<lambda>d. upperChar (hexDigit d) = upperHexDigit d
      \<and> upperHexDigit d \<in> set ''0123456789ABCDEF'') [0..<16]"
  by code_simp

lemma upperChar_hexDigit: "d < 16 \<Longrightarrow> upperChar (hexDigit d) = upperHexDigit d"
  using hexDigit_table by (simp add: list_all_iff)

lemma upperHexDigit_in: "d < 16 \<Longrightarrow> upperHexDigit d \<in> set ''0123456789ABCDEF''"
  using hexDigit_table by (simp add: list_all_iff)

lemma toHexNat_small: "n < 16 \<Longrightarrow> toHexNat n = [hexDigit n]"
  by (simp add: toHexNat.simps)

lemma toHexNat_byte: "16 \<le> n \<Longrightarrow> n < 256 \<Longrightarrow> toHexNat n = [hexDigit (n div 16), hexDigit (n mod 16)]"
  by (subst toHexNat.simps) (simp add: toHexNat_small less_mult_imp_div_less)

lemma mathRound_range:
  assumes "0 \<le> v" "v \<le> 255"
  shows "0 \<le> mathRound v" "mathRound v \<le> 255"
proof -
  show "0 \<le> mathRound v" using assms(1) by (simp add: mathRound_def)
  have "v + 1 / 2 < 256" using assms(2) by simp
  then have "\<lfloor>v + 1 / 2\<rfloor> < 256" by (simp only: floor_less_iff)
  then show "mathRound v \<le> 255" by (simp add: mathRound_def)
qed

lemma mathRound_nearest: "\<bar>v - of_int (mathRound v)\<bar> \<le> 1 / 2"
  unfolding mathRound_def by linarith

lemma toUpperCase_toHex:
  assumes "0 \<le> v" "v \<le> 255"
  shows "toUpperCase (toHex v) = specHexByte (nat (mathRound v))"
proof -
  define n where "n = nat (mathRound v)"
  from mathRound_range[OF assms] have n: "n < 256" and m: "mathRound v = int n"
    by (simp_all add: n_def)
  have s16: "toString16 (mathRound v) = toHexNat n"
    by (simp add: toString16_def m)
  show ?thesis
  proof (cases "n < 16")
    case True
    then have "toHex v = [CHR ''0'', hexDigit n]"
      by (simp add: toHex_def s16 toHexNat_small)
    moreover have "upperChar CHR ''0'' = upperHexDigit 0"
      by (simp add: upperChar_def upperHexDigit_def)
    ultimately show ?thesis using True
      by (simp add: toUpperCase_def specHexByte_def upperChar_hexDigit n_def[symmetric])
  next
    case False
    then have "toHex v = [hexDigit (n div 16), hexDigit (n mod 16)]"
      using n by (simp add: toHex_def s16 toHexNat_byte)
    moreover have "n div 16 < 16" using n by (simp add: less_mult_imp_div_less)
    ultimately show ?thesis
      by (simp add: toUpperCase_def specHexByte_def upperChar_hexDigit n_def[symmetric])
  qed
qed

lemma specHexByte_digits: "n < 256 \<Longrightarrow> set (specHexByte n) \<subseteq> set ''0123456789ABCDEF''"
  using upperHexDigit_in[of "n div 16"] upperHexDigit_in[of "n mod 16"]
  by (simp add: specHexByte_def less_mult_imp_div_less)

text \<open>
  C7. For channel values between 0 and 255, \<open>rgbToHex\<close> rounds each channel to the
  nearest integer, writes it as two upper-case hexadecimal digits, and concatenates red,
  green and blue after a \<open>#\<close>: the result is \<open>#\<close> followed by exactly six
  upper-case hexadecimal digits.
\<close>

theorem rgbToHex_spec:
  assumes "0 \<le> r" "r \<le> 255" "0 \<le> g" "g \<le> 255" "0 \<le> b" "b \<le> 255"
  shows "rgbToHex r g b =
           CHR ''#'' # specHexByte (nat (mathRound r)) @ specHexByte (nat (mathRound g))
             @ specHexByte (nat (mathRound b))
         \<and> length (rgbToHex r g b) = 7
         \<and> set (tl (rgbToHex r g b)) \<subseteq> set ''0123456789ABCDEF''
         \<and> \<bar>r - of_int (mathRound r)\<bar> \<le> 1 / 2
         \<and> \<bar>g - of_int (mathRound g)\<bar> \<le> 1 / 2
         \<and> \<bar>b - of_int (mathRound b)\<bar> \<le> 1 / 2"
proof -
  have up: "upperChar CHR ''#'' = CHR ''#''" by (simp add: upperChar_def)
  have eq: "rgbToHex r g b =
           CHR ''#'' # specHexByte (nat (mathRound r)) @ specHexByte (nat (mathRound g))
             @ specHexByte (nat (mathRound b))"
    using toUpperCase_toHex[OF assms(1,2)] toUpperCase_toHex[OF assms(3,4)]
      toUpperCase_toHex[OF assms(5,6)] up
    by (simp add: rgbToHex_def toUpperCase_def)
  have len: "length (rgbToHex r g b) = 7" by (simp add: eq specHexByte_def)
  have nr: "nat (mathRound r) < 256" using mathRound_range[OF assms(1,2)] by simp
  have ng: "nat (mathRound g) < 256" using mathRound_range[OF assms(3,4)] by simp
  have nb: "nat (mathRound b) < 256" using mathRound_range[OF assms(5,6)] by simp
  have dig: "set (tl (rgbToHex r g b)) \<subseteq> set ''0123456789ABCDEF''"
    using specHexByte_digits[OF nr] specHexByte_digits[OF ng] specHexByte_digits[OF nb]
    by (simp add: eq)
  show ?thesis using eq len dig mathRound_nearest by blast
qed

text \<open>The three colours named in the description: pure values at the ends and in the middle.\<close>

theorem rgbToHex_spec_witness:
  "rgbToHex 255 0 128 = ''#FF0080'' \<and> rgbToHex 0 0 0 = ''#000000'' \<and> rgbToHex 255 255 255 = ''#FFFFFF''"
  using rgbToHex_spec[of 255 0 128] rgbToHex_spec[of 0 0 0] rgbToHex_spec[of 255 255 255]
  by (simp add: specHexByte_def upperHexDigit_def mathRound_def)



section \<open>The demultiplexer: results\<close>

lemma scanFrames_start_bound:
  assumes "scanFrames buffer 0 0 [] = (c, frames)" "buffer \<noteq> []"
  shows "c < length buffer"
proof (cases "0 < c")
  case True
  with scanFrames_final(1)[OF assms(1)] have "isSoiAt buffer c" by simp
  then show ?thesis by (simp add: isSoiAt_iff)
next
  case False
  with assms(2) show ?thesis by simp
qed

lemma pushLastFrame_nonempty:
  assumes "scanFrames buffer 0 0 [] = (c, frames)"
  shows "\<forall>f\<in>set (pushLastFrame buffer (c, frames)). f \<noteq> []"
  using scanFrames_final(3)[OF assms]
  by (auto simp: pushLastFrame_def subarrayFrom_def)

lemma parseJpegFrames_unfiltered:
  "parseJpegFrames buffer = pushLastFrame buffer (scanFrames buffer 0 0 [])"
proof -
  obtain c frames where sc: "scanFrames buffer 0 0 [] = (c, frames)"
    by (cases "scanFrames buffer 0 0 []")
  from pushLastFrame_nonempty[OF sc] show ?thesis
    by (simp add: parseJpegFrames_def sc filter_id_conv)
qed

lemma parseJpegFrames_startsWithSoi:
  assumes "isSoiAt buffer p" "f \<in> set (parseJpegFrames buffer)"
  shows "startsWithSoi f"
proof -
  obtain c frames where sc: "scanFrames buffer 0 0 [] = (c, frames)"
    by (cases "scanFrames buffer 0 0 []")
  from scanFrames_final(2)[OF sc] assms(1) have soi: "isSoiAt buffer c" by blast
  from assms(2) have "f \<in> set frames \<or> f = subarrayFrom buffer c"
    by (auto simp: parseJpegFrames_unfiltered sc pushLastFrame_def split: if_splits)
  then show ?thesis
    using scanFrames_final(3)[OF sc] subarrayFrom_startsWithSoi[OF soi] by auto
qed

lemma parseJpegFrames_empty_iff: "parseJpegFrames buffer = [] \<longleftrightarrow> buffer = []"
proof
  assume e: "parseJpegFrames buffer = []"
  show "buffer = []"
  proof (rule ccontr)
    assume ne: "buffer \<noteq> []"
    obtain c frames where sc: "scanFrames buffer 0 0 [] = (c, frames)"
      by (cases "scanFrames buffer 0 0 []")
    from scanFrames_start_bound[OF sc ne] have "pushLastFrame buffer (c, frames) \<noteq> []"
      by (simp add: pushLastFrame_def)
    with e show False by (simp add: parseJpegFrames_unfiltered sc)
  qed
next
  assume "buffer = []"
  then show "parseJpegFrames buffer = []"
    by (simp add: parseJpegFrames_def pushLastFrame_def scanFrames.simps)
qed

lemma parseJpegFrames_no_soi:
  assumes "buffer \<noteq> []" "\<forall>p. \<not> isSoiAt buffer p"
  shows "parseJpegFrames buffer = [buffer]"
proof -
  from assms(2) have "scanFrames buffer 0 0 [] = (0, [])"
    by (intro scanFrames_no_soi) simp
  with assms(1) show ?thesis
    by (simp add: parseJpegFrames_unfiltered pushLastFrame_def subarrayFrom_def)
qed

text \<open>
  C10. The scan of \<open>parseJpegFrames\<close> stays inside the buffer: whenever the loop guard
  \<open>i < length - 1\<close> holds, both bytes it reads exist. The function is total, the buffers it
  returns are all non-empty (two markers are never adjacent, and the final filter removes
  nothing), and if the input contains a start-of-image marker then every returned buffer
  begins with one.
\<close>

theorem parseJpegFrames_safe:
  "(\<forall>i. int i < int (length buffer) - 1 \<longrightarrow>
        readByte buffer i \<noteq> None \<and> readByte buffer (i + 1) \<noteq> None)
   \<and> (\<forall>p. isSoiAt buffer p \<longrightarrow> \<not> isSoiAt buffer (p + 1))
   \<and> (\<exists>c frames. scanFrames buffer 0 0 [] = (c, frames)
         \<and> parseJpegFrames buffer = pushLastFrame buffer (c, frames))
   \<and> (\<forall>f\<in>set (parseJpegFrames buffer). f \<noteq> [])
   \<and> ((\<exists>p. isSoiAt buffer p) \<longrightarrow>
        (\<forall>f\<in>set (parseJpegFrames buffer). take 2 f = [0xff, 0xd8]))"
proof -
  obtain c frames where sc: "scanFrames buffer 0 0 [] = (c, frames)"
    by (cases "scanFrames buffer 0 0 []")
  have reads: "\<forall>i. int i < int (length buffer) - 1 \<longrightarrow>
        readByte buffer i \<noteq> None \<and> readByte buffer (i + 1) \<noteq> None"
    by (simp add: readByte_def)
  have apart: "\<forall>p. isSoiAt buffer p \<longrightarrow> \<not> isSoiAt buffer (p + 1)"
    using isSoiAt_not_adjacent by simp
  have unf: "\<exists>c frames. scanFrames buffer 0 0 [] = (c, frames)
         \<and> parseJpegFrames buffer = pushLastFrame buffer (c, frames)"
    using sc parseJpegFrames_unfiltered by simp
  have ne: "\<forall>f\<in>set (parseJpegFrames buffer). f \<noteq> []"
    using pushLastFrame_nonempty[OF sc] by (simp add: parseJpegFrames_unfiltered sc)
  have soi: "(\<exists>p. isSoiAt buffer p) \<longrightarrow>
        (\<forall>f\<in>set (parseJpegFrames buffer). take 2 f = [0xff, 0xd8])"
    using parseJpegFrames_startsWithSoi by (auto simp: startsWithSoi_def)
  from reads apart unf ne soi show ?thesis by blast
qed

text \<open>
  A stream with a byte of padding before two frames: both frames are returned, each
  starting with the marker.
\<close>

theorem parseJpegFrames_safe_witness:
  "isSoiAt (5 # jpeg 1 @ jpeg 2) 1
   \<and> parseJpegFrames (5 # jpeg 1 @ jpeg 2) = [jpeg 1, jpeg 2]
   \<and> parseJpegFrames (5 # jpeg 1 @ jpeg 2) ! 0 \<noteq> []
   \<and> take 2 (parseJpegFrames (5 # jpeg 1 @ jpeg 2) ! 0) = [0xff, 0xd8]
   \<and> take 2 (parseJpegFrames (5 # jpeg 1 @ jpeg 2) ! 1) = [0xff, 0xd8]
   \<and> readByte (5 # jpeg 1 @ jpeg 2) 5 \<noteq> None \<and> readByte (5 # jpeg 1 @ jpeg 2) 6 \<noteq> None
   \<and> \<not> isSoiAt (5 # jpeg 1 @ jpeg 2) (1 + 1)"
proof -
  let ?B = "5 # jpeg 1 @ jpeg 2"
  have soi: "isSoiAt ?B 1"
    by (simp add: isSoiAt_def readByte_def jpeg_def)
  have val: "parseJpegFrames ?B = [jpeg 1, jpeg 2]"
    by code_simp
  have g: "int 5 < int (length ?B) - 1"
    by (simp add: jpeg_def)
  note all = parseJpegFrames_safe[of ?B]
  from all have reads: "int 5 < int (length ?B) - 1 \<longrightarrow>
      readByte ?B 5 \<noteq> None \<and> readByte ?B (5 + 1) \<noteq> None"
    by blast
  from all have ne: "\<forall>f\<in>set (parseJpegFrames ?B). f \<noteq> []"
    by blast
  from all soi have st: "\<forall>f\<in>set (parseJpegFrames ?B). take 2 f = [0xff, 0xd8]"
    by blast
  from reads g have r: "readByte ?B 5 \<noteq> None \<and> readByte ?B 6 \<noteq> None"
    by simp
  from all soi have ad: "\<not> isSoiAt ?B (1 + 1)"
    by blast
  have m0: "parseJpegFrames ?B ! 0 \<in> set (parseJpegFrames ?B)"
    and m1: "parseJpegFrames ?B ! 1 \<in> set (parseJpegFrames ?B)"
    by (simp_all add: val)
  from ne m0 have ne0: "parseJpegFrames ?B ! 0 \<noteq> []" by blast
  from st m0 have st0: "take 2 (parseJpegFrames ?B ! 0) = [0xff, 0xd8]" by blast
  from st m1 have st1: "take 2 (parseJpegFrames ?B ! 1) = [0xff, 0xd8]" by blast
  from soi val ne0 st0 st1 r ad show ?thesis by blast
qed

subsection \<open>Concatenated frames\<close>

text \<open>
  The stream the decoder writes is a concatenation of images, each starting with the marker
  and containing it nowhere else. On such a stream the scan returns the frames from the
  second on; a single frame is returned as it is.
\<close>

lemma scanFrames_skip:
  "i \<le> j \<Longrightarrow> \<forall>p. i \<le> p \<and> p < j \<longrightarrow> \<not> isSoiAt buffer p \<Longrightarrow>
   scanFrames buffer i c frames = scanFrames buffer j c frames"
proof (induction "j - i" arbitrary: i)
  case 0
  then show ?case by simp
next
  case (Suc d)
  then have lt: "i < j" and n: "\<not> isSoiAt buffer i" by auto
  from Suc.prems have rest: "\<forall>p. Suc i \<le> p \<and> p < j \<longrightarrow> \<not> isSoiAt buffer p" by auto
  from Suc.hyps(2) have d: "d = j - Suc i" by simp
  have IH: "scanFrames buffer (Suc i) c frames = scanFrames buffer j c frames"
    using Suc.hyps(1)[OF d _ rest] lt by simp
  show ?case
  proof (cases "int i < int (length buffer) - 1")
    case True
    with n IH show ?thesis by (subst scanFrames.simps) simp
  next
    case False
    with lt have "\<not> int j < int (length buffer) - 1" by simp
    with False show ?thesis by (simp add: scanFrames.simps)
  qed
qed

lemma wellFormedJpeg_length: "wellFormedJpeg b \<Longrightarrow> 2 \<le> length b"
  by (auto simp: wellFormedJpeg_def isSoiAt_iff)

lemma wellFormedJpeg_nonempty: "wellFormedJpeg b \<Longrightarrow> b \<noteq> []"
  by (auto simp: wellFormedJpeg_def isSoiAt_iff)

lemma wellFormedJpeg_bytes: "wellFormedJpeg b \<Longrightarrow> b ! 0 = 0xff \<and> b ! 1 = 0xd8"
  by (auto simp: wellFormedJpeg_def isSoiAt_iff)

lemma isSoiAt_at_frame_start:
  assumes "wellFormedJpeg b"
  shows "isSoiAt (pre @ b @ post) (length pre)"
  using wellFormedJpeg_length[OF assms] wellFormedJpeg_bytes[OF assms]
    wellFormedJpeg_nonempty[OF assms]
  by (auto simp: isSoiAt_iff nth_append)

lemma no_soi_inside_frame:
  assumes "wellFormedJpeg b" "post = [] \<or> post ! 0 = 0xff"
    "length pre < p" "p < length pre + length b"
  shows "\<not> isSoiAt (pre @ b @ post) p"
proof
  assume soi: "isSoiAt (pre @ b @ post) p"
  define q where "q = p - length pre"
  from assms(3,4) have q: "0 < q" "q < length b" "p = length pre + q" by (simp_all add: q_def)
  show False
  proof (cases "q + 1 < length b")
    case True
    with soi q have "isSoiAt b q"
      by (simp add: isSoiAt_iff nth_append)
    with assms(1) q(1) show False by (auto simp: wellFormedJpeg_def)
  next
    case False
    with q have last: "q + 1 = length b" by simp
    from soi have len: "p + 1 < length (pre @ b @ post)" and d8: "(pre @ b @ post) ! (p + 1) = 0xd8"
      by (simp_all add: isSoiAt_iff)
    from len last q(3) have ne: "post \<noteq> []" by auto
    have "(pre @ b @ post) ! (p + 1) = post ! 0"
      using last q(3) by (simp add: nth_append)
    with d8 assms(2) ne show False by simp
  qed
qed

lemma no_soi_after_last_frame:
  assumes "wellFormedJpeg b" "length pre < p"
  shows "\<not> isSoiAt (pre @ b) p"
proof (cases "p < length pre + length b")
  case True
  from no_soi_inside_frame[OF assms(1) _ assms(2) True, of "[]"] show ?thesis by simp
next
  case False
  then show ?thesis by (simp add: isSoiAt_iff)
qed

lemma concat_frames_head:
  assumes "\<forall>x\<in>set bs. wellFormedJpeg x"
  shows "concat bs = [] \<or> concat bs ! 0 = 0xff"
proof (cases bs)
  case Nil
  then show ?thesis by simp
next
  case (Cons b rest)
  with assms have w: "wellFormedJpeg b" by simp
  from wellFormedJpeg_nonempty[OF w] wellFormedJpeg_bytes[OF w] Cons show ?thesis
    by (simp add: nth_append)
qed

lemma scanFrames_at_soi:
  assumes "isSoiAt buffer i"
  shows "scanFrames buffer i c frames =
           scanFrames buffer (i + 1) i
             (if i > c \<and> c > 0 then frames @ [subarray buffer c i] else frames)"
proof -
  from assms have "int i < int (length buffer) - 1" by (simp add: isSoiAt_iff)
  with assms show ?thesis by (subst scanFrames.simps) simp
qed

lemma scanFrames_concat:
  assumes "\<forall>x\<in>set (b # bs). wellFormedJpeg x"
  shows "scanFrames (pre @ concat (b # bs)) (length pre) c frames =
     (length pre + length (concat (butlast (b # bs))),
      (if length pre > c \<and> c > 0
       then frames @ [subarray (pre @ concat (b # bs)) c (length pre)] else frames)
      @ (if pre = [] then tl (butlast (b # bs)) else butlast (b # bs)))"
  using assms
proof (induction bs arbitrary: pre b c frames)
  case Nil
  then have w: "wellFormedJpeg b" by simp
  let ?buf = "pre @ concat [b]"
  let ?f0 = "if length pre > c \<and> c > 0
       then frames @ [subarray ?buf c (length pre)] else frames"
  have soi: "isSoiAt ?buf (length pre)"
    using isSoiAt_at_frame_start[OF w, of pre "[]"] by simp
  have "\<forall>p\<ge>length pre + 1. \<not> isSoiAt ?buf p"
    using no_soi_after_last_frame[OF w, of pre] by simp
  from scanFrames_no_soi[OF this] have "scanFrames ?buf (length pre + 1) (length pre) ?f0
      = (length pre, ?f0)" .
  with scanFrames_at_soi[OF soi, of c frames] show ?case by simp
next
  case (Cons b2 bs)
  then have w: "wellFormedJpeg b" and w2: "\<forall>x\<in>set (b2 # bs). wellFormedJpeg x" by simp_all
  let ?post = "concat (b2 # bs)"
  let ?buf = "pre @ concat (b # b2 # bs)"
  let ?f0 = "if length pre > c \<and> c > 0
       then frames @ [subarray ?buf c (length pre)] else frames"
  have buf: "?buf = pre @ b @ ?post" by simp
  have soi: "isSoiAt ?buf (length pre)"
    unfolding buf by (rule isSoiAt_at_frame_start[OF w])
  have hd: "?post = [] \<or> ?post ! 0 = 0xff" by (rule concat_frames_head[OF w2])
  have skip: "\<forall>p. length pre + 1 \<le> p \<and> p < length pre + length b \<longrightarrow> \<not> isSoiAt ?buf p"
    unfolding buf using no_soi_inside_frame[OF w hd, of pre] by simp
  have le: "length pre + 1 \<le> length pre + length b"
    using wellFormedJpeg_length[OF w] by simp
  have s1: "scanFrames ?buf (length pre) c frames
        = scanFrames ?buf (length pre + length b) (length pre) ?f0"
    using scanFrames_at_soi[OF soi, of c frames] scanFrames_skip[OF le skip, of "length pre" ?f0]
    by simp
  have buf2: "?buf = (pre @ b) @ concat (b2 # bs)" by simp
  have sub: "subarray ?buf (length pre) (length pre + length b) = b"
    by (simp add: subarray_def)
  have bne: "b \<noteq> []" using wellFormedJpeg_length[OF w] by auto
  have s2: "scanFrames ?buf (length (pre @ b)) (length pre) ?f0 =
     (length (pre @ b) + length (concat (butlast (b2 # bs))),
      (if length (pre @ b) > length pre \<and> length pre > 0
       then ?f0 @ [subarray ?buf (length pre) (length (pre @ b))] else ?f0)
      @ (if pre @ b = [] then tl (butlast (b2 # bs)) else butlast (b2 # bs)))"
    unfolding buf2 by (rule Cons.IH[OF w2])
  show ?case
    unfolding s1 using s2 sub bne by (cases "pre = []") (simp_all add: add.assoc)
qed

lemma parseJpegFrames_concat:
  assumes "\<forall>x\<in>set (b # bs). wellFormedJpeg x"
  shows "parseJpegFrames (concat (b # bs)) = (if bs = [] then [b] else bs)"
proof -
  define buf where "buf = concat (b # bs)"
  define k where "k = length (concat (butlast (b # bs)))"
  define final where "final = last (b # bs)"
  from scanFrames_concat[OF assms, of "[]" 0 "[]"]
  have sc: "scanFrames buf 0 0 [] = (k, tl (butlast (b # bs)))"
    by (simp add: buf_def k_def)
  have "b # bs = butlast (b # bs) @ [last (b # bs)]" by simp
  then have "concat (b # bs) = concat (butlast (b # bs) @ [last (b # bs)])" by (rule arg_cong)
  then have split: "buf = concat (butlast (b # bs)) @ final"
    by (simp only: buf_def final_def concat_append concat.simps append_Nil2)
  from assms have "wellFormedJpeg final"
    unfolding final_def by (metis last_in_set list.distinct(1))
  then have "final \<noteq> []" by (rule wellFormedJpeg_nonempty)
  then have lt: "k < length buf" by (simp add: split k_def)
  have dr: "drop k buf = final" by (simp add: split k_def)
  have "parseJpegFrames buf = tl (butlast (b # bs)) @ [final]"
    by (simp add: parseJpegFrames_unfiltered sc pushLastFrame_def subarrayFrom_def lt dr)
  also have "\<dots> = (if bs = [] then [b] else bs)" by (simp add: final_def)
  finally show ?thesis by (simp only: buf_def)
qed

section \<open>Batch extraction: frames and timestamps\<close>

lemma fixedWorld_simps:
  "isValidVideoUrl (fixedWorld output) u = True"
  "resolveVideoUrl (fixedWorld output) u = u"
  "ensureTempDir (fixedWorld output) = None"
  "seekDecode (fixedWorld output) u t = SeekDone [0xff, 0xd8, 7]"
  "seekMs (fixedWorld output) u t = 40"
  "pipeDecode (fixedWorld output) u opts = Inr (output, 50)"
  "getPalette (fixedWorld output) = (\<lambda>f. Inr (redPalette f))"
  "paletteMs (fixedWorld output) f = 3"
  by (simp_all add: fixedWorld_def)

lemma extractMultipleFrames_batch:
  assumes "isValidVideoUrl w url" "2 \<le> length tss"
  shows "extractMultipleFrames w url tss =
     ([PipeCall url (outputOptions (selectExpression w tss))],
      (case pipeDecode w url (outputOptions (selectExpression w tss)) of
         Inl message \<Rightarrow>
           Inl (Error (''FFmpeg batch extraction failed: '' @ message
                @ ''. Make sure FFmpeg is installed and the video URL is accessible.''))
       | Inr (output, fMs) \<Rightarrow>
           if parseJpegFrames output = [] then Inl noFramesError
           else Inr (buildFrameMap tss (parseJpegFrames output), fMs)))"
  using assms
  by (auto simp: extractMultipleFrames_def Let_def noFramesError_def split: sum.splits prod.splits)

lemma zip_take_left: "zip (take n xs) (take n ys) = zip (take n xs) ys"
proof (induction n arbitrary: xs ys)
  case 0
  then show ?case by simp
next
  case (Suc n)
  then show ?case by (cases xs; cases ys) simp_all
qed

lemma fold_upt_zip:
  "n \<le> length xs \<Longrightarrow>
   fold (\<lambda>i acc. if i < length ys then F (xs ! i) (ys ! i) acc else acc) [0..<n] a
   = fold (\<lambda>(k, v). F k v) (zip (take n xs) ys) a"
proof (induction n)
  case 0
  then show ?case by simp
next
  case (Suc n)
  then have n: "n < length xs" by simp
  have d: "zip [xs ! n] (drop n ys) = (if n < length ys then [(xs ! n, ys ! n)] else [])"
  proof (cases "n < length ys")
    case True
    then have "drop n ys = ys ! n # drop (Suc n) ys" by (simp add: Cons_nth_drop_Suc)
    with True show ?thesis by simp
  next
    case False
    then show ?thesis by simp
  qed
  have z: "zip (take (Suc n) xs) ys
        = zip (take n xs) ys @ (if n < length ys then [(xs ! n, ys ! n)] else [])"
    using n d by (simp add: take_Suc_conv_app_nth zip_append1 min_def zip_take_left)
  show ?case using Suc n by (simp add: z)
qed

lemma buildFrameMap_zip:
  "buildFrameMap tss frames = fold (\<lambda>(k, v). mapSet k v) (zip tss frames) []"
  unfolding buildFrameMap_def using fold_upt_zip[of "length tss" tss frames mapSet "[]"] by simp

lemma buildFrameMap_single:
  "buildFrameMap (t # ts) [f] = [(t, f)]"
  by (simp add: buildFrameMap_zip mapSet_def)

text \<open>
  C3. The round trip fails as soon as there are two frames: on the concatenation of two
  buffers that each start with the marker, \<open>parseJpegFrames\<close> returns only the second.
  The first frame starts at index 0, and the guard \<open>currentFrameStart > 0\<close> keeps it from
  being pushed when the second marker is found.
\<close>

theorem first_frame_dropped: "parseJpegFrames (jpeg 1 @ jpeg 2) = [jpeg 2]"
  by code_simp

text \<open>
  C5, as the code has it. When the batch decoder has delivered a byte stream, the batch
  extraction fails with the no-frames error exactly when the stream is empty. A non-empty
  stream without any marker is one frame, the whole stream, assigned to the first timestamp.
\<close>

theorem noFrames_iff_empty_output:
  assumes "isValidVideoUrl w url" "2 \<le> length tss"
    "pipeDecode w url (outputOptions (selectExpression w tss)) = Inr (output, ms)"
  shows "(snd (extractMultipleFrames w url tss) = Inl noFramesError \<longleftrightarrow> output = [])
       \<and> (output \<noteq> [] \<and> (\<forall>p. \<not> isSoiAt output p) \<longrightarrow>
            snd (extractMultipleFrames w url tss) = Inr ([(tss ! 0, output)], ms))"
proof -
  have a: "snd (extractMultipleFrames w url tss) = Inl noFramesError \<longleftrightarrow> output = []"
    by (simp add: extractMultipleFrames_batch[OF assms(1,2)] assms(3) parseJpegFrames_empty_iff)
  have b: "snd (extractMultipleFrames w url tss) = Inr ([(tss ! 0, output)], ms)"
    if "output \<noteq> []" "\<forall>p. \<not> isSoiAt output p"
  proof -
    from assms(2) obtain t ts where tss: "tss = t # ts" by (cases tss) auto
    then have m: "buildFrameMap tss [output] = [(tss ! 0, output)]"
      by (simp add: buildFrameMap_single)
    show ?thesis
      by (simp add: extractMultipleFrames_batch[OF assms(1,2)] assms(3)
          parseJpegFrames_no_soi[OF that] m)
  qed
  from a b show ?thesis by blast
qed

text \<open>
  The empty stream gives the error; the two-byte stream \<open>[9, 9]\<close> has no marker and is
  returned as the frame of the first timestamp.
\<close>

theorem noFrames_iff_empty_output_witness:
  "snd (extractMultipleFrames (fixedWorld []) ''u'' [1000, 2000]) = Inl noFramesError
   \<and> snd (extractMultipleFrames (fixedWorld [9, 9]) ''u'' [500, 1500]) = Inr ([(500, [9, 9])], 50)"
proof -
  have e: "snd (extractMultipleFrames (fixedWorld []) ''u'' [1000, 2000]) = Inl noFramesError"
    using noFrames_iff_empty_output[of "fixedWorld []" "''u''" "[1000, 2000]" "[]" 50]
    by (simp add: fixedWorld_simps)
  have n: "\<forall>p. \<not> isSoiAt [9, 9] p"
    by (auto simp: isSoiAt_iff less_Suc_eq)
  have m: "snd (extractMultipleFrames (fixedWorld [9, 9]) ''u'' [500, 1500])
             = Inr ([(500, [9, 9])], 50)"
    using noFrames_iff_empty_output[of "fixedWorld [9, 9]" "''u''" "[500, 1500]" "[9, 9]" 50] n
    by (simp add: fixedWorld_simps)
  from e m show ?thesis by simp
qed

text \<open>
  C5 as stated fails: the stream \<open>[1, 2, 3]\<close> is not empty and contains no marker, and
  the batch extraction succeeds with that stream as the frame of timestamp 1000.
\<close>

theorem markerless_stream_is_one_frame:
  "snd (extractMultipleFrames (fixedWorld [1, 2, 3]) ''u'' [1000, 2000]) = Inr ([(1000, [1, 2, 3])], 50)"
proof -
  have "parseJpegFrames [1, 2, 3] = [[1, 2, 3]]" by code_simp
  then show ?thesis
    by (simp add: extractMultipleFrames_batch fixedWorld_simps buildFrameMap_single)
qed

lemma buildFrameMap_updates: "buildFrameMap tss frames = AList.updates tss frames []"
  by (simp add: buildFrameMap_zip AList.updates_def mapSet_def[abs_def] case_prod_unfold)

lemma buildFrameMap_distinct: "distinct (map fst (buildFrameMap tss frames))"
  by (simp add: buildFrameMap_updates AList.distinct_updates)

lemma buildFrameMap_keys:
  "set (map fst (buildFrameMap tss frames)) = set (take (length frames) tss)"
proof -
  have "set (map fst (buildFrameMap tss frames)) = dom (map_of (buildFrameMap tss frames))"
    by (simp add: dom_map_of_conv_image_fst)
  also have "\<dots> = set (take (length frames) tss)"
    by (simp add: buildFrameMap_updates AList.updates_conv')
  finally show ?thesis .
qed

lemma buildFrameMap_length:
  "length (buildFrameMap tss frames) = card (set (take (length frames) tss))"
  using buildFrameMap_distinct[of tss frames] buildFrameMap_keys[of tss frames]
  by (metis distinct_card length_map)

lemma frameMap_prefix_lookup:
  "n \<le> length tss \<Longrightarrow>
   map_of (fold (\<lambda>i frameMap.
             if i < length frames then mapSet (tss ! i) (frames ! i) frameMap else frameMap)
          [0..<n] []) k = Some v
   \<longleftrightarrow> (\<exists>i. lastIndexOf tss (min n (length frames)) k i \<and> frames ! i = v)"
proof (induction n arbitrary: v)
  case 0
  then show ?case by (simp add: lastIndexOf_def)
next
  case (Suc n)
  then have IH: "\<And>v. map_of (fold (\<lambda>i frameMap.
             if i < length frames then mapSet (tss ! i) (frames ! i) frameMap else frameMap)
          [0..<n] []) k = Some v
     \<longleftrightarrow> (\<exists>i. lastIndexOf tss (min n (length frames)) k i \<and> frames ! i = v)"
    by simp
  show ?case
  proof (cases "n < length frames")
    case False
    then have "min (Suc n) (length frames) = min n (length frames)" by simp
    with False IH show ?thesis by simp
  next
    case True
    then have mn: "min (Suc n) (length frames) = Suc n" "min n (length frames) = n" by simp_all
    show ?thesis
    proof (cases "k = tss ! n")
      case k: True
      have "(\<exists>i. lastIndexOf tss (Suc n) k i \<and> frames ! i = v) \<longleftrightarrow> frames ! n = v"
      proof
        assume "\<exists>i. lastIndexOf tss (Suc n) k i \<and> frames ! i = v"
        then obtain i where i: "lastIndexOf tss (Suc n) k i" "frames ! i = v" by blast
        have "i = n"
        proof (rule ccontr)
          assume "i \<noteq> n"
          with i(1) have "i < n" by (simp add: lastIndexOf_def)
          with i(1) k show False by (auto simp: lastIndexOf_def)
        qed
        with i(2) show "frames ! n = v" by simp
      next
        assume "frames ! n = v"
        with k have "lastIndexOf tss (Suc n) k n \<and> frames ! n = v"
          by (simp add: lastIndexOf_def)
        then show "\<exists>i. lastIndexOf tss (Suc n) k i \<and> frames ! i = v" by blast
      qed
      with True k show ?thesis
        by (auto simp: mn mapSet_def AList.update_conv')
    next
      case k: False
      have "\<And>i. lastIndexOf tss (Suc n) k i \<longleftrightarrow> lastIndexOf tss n k i"
        using k by (auto simp: lastIndexOf_def less_Suc_eq)
      with True k IH show ?thesis
        by (simp add: mn mapSet_def AList.update_conv')
    qed
  qed
qed

lemma buildFrameMap_lookup:
  "map_of (buildFrameMap tss frames) k = Some v
   \<longleftrightarrow> (\<exists>i. lastIndexOf tss (min (length tss) (length frames)) k i \<and> frames ! i = v)"
  unfolding buildFrameMap_def by (rule frameMap_prefix_lookup) simp

lemma buildFrameMap_entry:
  assumes "(k, v) \<in> set (buildFrameMap tss frames)"
  shows "\<exists>i. lastIndexOf tss (min (length tss) (length frames)) k i \<and> frames ! i = v"
proof -
  from assms buildFrameMap_distinct[of tss frames]
  have "map_of (buildFrameMap tss frames) k = Some v" by simp
  then show ?thesis by (simp add: buildFrameMap_lookup)
qed

lemma buildFrameMap_values:
  assumes "(k, v) \<in> set (buildFrameMap tss frames)"
  shows "v \<in> set frames"
  using buildFrameMap_entry[OF assms] by (auto simp: lastIndexOf_def)

lemma promiseAll_map_Inr: "promiseAll (map Inr xs) = Inr xs"
  by (induction xs) simp_all

lemma promiseAll_Inr_D: "promiseAll ps = Inr xs \<Longrightarrow> ps = map Inr xs"
proof (induction ps arbitrary: xs)
  case Nil
  then show ?case by simp
next
  case (Cons p ps)
  show ?case
  proof (cases p)
    case (Inl e)
    with Cons.prems show ?thesis by simp
  next
    case (Inr x)
    show ?thesis
    proof (cases "promiseAll ps")
      case (Inl e)
      with Cons.prems Inr show ?thesis by simp
    next
      case r: (Inr ys)
      with Cons.prems Inr have "xs = x # ys" by simp
      with Cons.IH[OF r] Inr show ?thesis by simp
    qed
  qed
qed

lemma promiseAll_Inr_iff: "promiseAll ps = Inr xs \<longleftrightarrow> ps = map Inr xs"
  using promiseAll_Inr_D promiseAll_map_Inr by blast

lemma colorTask_Inr_iff:
  "colorTask w fMs (ts, f) = Inr r \<longleftrightarrow>
     (\<exists>c. extractDominantColor (getPalette w) f = Inr c
        \<and> r = \<lparr>timestamp = ts, color = c, ffmpegMs = fMs, vibrantMs = paletteMs w f\<rparr>)"
  by (auto simp: colorTask_def extractDominantColorTimed_def split: sum.splits)

lemma colorTasks_Inr:
  assumes "map (colorTask w fMs) fm = map Inr xs"
  shows "map timestamp xs = map fst fm"
    and "\<forall>r\<in>set xs. \<exists>f. (timestamp r, f) \<in> set fm
           \<and> extractDominantColor (getPalette w) f = Inr (color r)"
  using assms
proof (induction fm arbitrary: xs)
  case Nil
  { case 1 then show ?case by simp }
  { case 2 then show ?case by simp }
next
  case (Cons e fm)
  { case 1
    then obtain x xs' where xs: "xs = x # xs'" "colorTask w fMs e = Inr x"
      "map (colorTask w fMs) fm = map Inr xs'" by (cases xs) auto
    from xs(2) have "timestamp x = fst e" by (cases e) (auto simp: colorTask_Inr_iff)
    with Cons.IH(1)[OF xs(3)] xs(1) show ?case by simp }
  { case 2
    then obtain x xs' where xs: "xs = x # xs'" "colorTask w fMs e = Inr x"
      "map (colorTask w fMs) fm = map Inr xs'" by (cases xs) auto
    from xs(2) have "(timestamp x, snd e) \<in> set (e # fm)
        \<and> extractDominantColor (getPalette w) (snd e) = Inr (color x)"
      by (cases e) (auto simp: colorTask_Inr_iff)
    with Cons.IH(2)[OF xs(3)] xs(1) show ?case by auto }
qed

lemma promiseAll_colorTasks_ok:
  assumes "\<forall>(k, f)\<in>set fm. \<exists>c. extractDominantColor (getPalette w) f = Inr c"
  shows "\<exists>xs. promiseAll (map (colorTask w fMs) fm) = Inr xs"
  using assms
proof (induction fm)
  case Nil
  then show ?case by simp
next
  case (Cons e fm)
  obtain k f where e: "e = (k, f)" by (cases e)
  with Cons.prems obtain c where c: "extractDominantColor (getPalette w) f = Inr c" by auto
  from Cons obtain xs where "promiseAll (map (colorTask w fMs) fm) = Inr xs" by auto
  moreover from c e have "colorTask w fMs e
      = Inr \<lparr>timestamp = k, color = c, ffmpegMs = fMs, vibrantMs = paletteMs w f\<rparr>"
    by (simp add: colorTask_Inr_iff)
  ultimately show ?case by simp
qed

lemma extractColorsFromFrames_batch:
  assumes "isValidVideoUrl w url" "2 \<le> length tss"
    "pipeDecode w url (outputOptions (selectExpression w tss)) = Inr (output, ms)"
  shows "snd (extractColorsFromFrames w url tss) =
     (if parseJpegFrames output = [] then Inl noFramesError
      else (case promiseAll (map (colorTask w ms) (buildFrameMap tss (parseJpegFrames output))) of
              Inl e \<Rightarrow> Inl e
            | Inr results \<Rightarrow> Inr (sort_key timestamp results)))"
  by (simp add: extractColorsFromFrames_def extractMultipleFrames_batch[OF assms(1,2)] assms(3)
      split: sum.splits)

lemma extractColorsFromFrames_success:
  assumes "isValidVideoUrl w url" "2 \<le> length tss"
    "pipeDecode w url (outputOptions (selectExpression w tss)) = Inr (output, ms)"
    "snd (extractColorsFromFrames w url tss) = Inr results"
  shows "\<exists>xs. map (colorTask w ms) (buildFrameMap tss (parseJpegFrames output)) = map Inr xs
           \<and> results = sort_key timestamp xs \<and> parseJpegFrames output \<noteq> []"
  using assms(4) unfolding extractColorsFromFrames_batch[OF assms(1-3)]
  by (auto simp: promiseAll_Inr_iff noFramesError_def split: if_splits sum.splits)

section \<open>Batch extraction: results\<close>

text \<open>Whatever the request order, a successful batch call returns ascending timestamps.\<close>

lemma batch_results_sorted:
  assumes "isValidVideoUrl w url" "2 \<le> length tss"
    "pipeDecode w url (outputOptions (selectExpression w tss)) = Inr (output, ms)"
    "snd (extractColorsFromFrames w url tss) = Inr results"
  shows "sorted (map timestamp results)"
proof -
  from extractColorsFromFrames_success[OF assms] obtain xs where
    "results = sort_key timestamp xs" by blast
  then show ?thesis by (simp add: sorted_sort_key)
qed

lemma fixed_colorTask:
  "colorTask (fixedWorld out) fMs (ts, jpeg b)
     = Inr \<lparr>timestamp = ts, color = rgbToHex (real (unat b)) 0 0, ffmpegMs = fMs, vibrantMs = 3\<rparr>"
  by (simp add: colorTask_Inr_iff extractDominantColor_def fixedWorld_simps redPalette_def
      selectSwatch_def orElse_def jpeg_def)

lemma fixed_extractDominantColor:
  "extractDominantColor (getPalette (fixedWorld out)) (jpeg b) = Inr (rgbToHex (real (unat b)) 0 0)"
  by (simp add: extractDominantColor_def fixedWorld_simps redPalette_def
      selectSwatch_def orElse_def jpeg_def)

lemma fixed_colors:
  "rgbToHex 2 0 0 = ''#020000''"
  "rgbToHex 3 0 0 = ''#030000''"
  "rgbToHex 4 0 0 = ''#040000''"
  by (simp_all add: rgbToHex_def toHex_def toString16_def mathRound_def toHexNat.simps
      hexDigit_def toUpperCase_def upperChar_def)

lemma parse_three: "parseJpegFrames (jpeg 1 @ jpeg 2 @ jpeg 3) = [jpeg 2, jpeg 3]"
  by code_simp

lemma parse_four: "parseJpegFrames (jpeg 1 @ jpeg 2 @ jpeg 3 @ jpeg 4) = [jpeg 2, jpeg 3, jpeg 4]"
  by code_simp

lemma frameMap_unordered:
  "buildFrameMap [5000, 1000, 3000] [f, g, h] = [(5000, f), (1000, g), (3000, h)]"
  by (simp add: buildFrameMap_zip mapSet_def)

lemma frameMap_short:
  "buildFrameMap [1000, 2000, 3000] [f, g] = [(1000, f), (2000, g)]"
  by (simp add: buildFrameMap_zip mapSet_def)

lemma frameMap_duplicate:
  "buildFrameMap [1000, 1000, 2000] [f, g, h] = [(1000, g), (2000, h)]"
  by (simp add: buildFrameMap_zip mapSet_def)

text \<open>
  C1. The results are sorted by timestamp value: for the request \<open>[5000, 1000, 3000]\<close>
  and a stream from which three frames are split, the results come back as 1000, 3000, 5000,
  not in the order of the request. (The frames were assigned by position: 5000 has the
  colour of the first frame split off, 1000 of the second, 3000 of the third.)
\<close>

theorem results_sorted_not_request_order:
  "snd (extractColorsFromFrames (fixedWorld (jpeg 1 @ jpeg 2 @ jpeg 3 @ jpeg 4)) ''u''
         [5000, 1000, 3000])
   = Inr [\<lparr>timestamp = 1000, color = ''#030000'', ffmpegMs = 50, vibrantMs = 3\<rparr>,
          \<lparr>timestamp = 3000, color = ''#040000'', ffmpegMs = 50, vibrantMs = 3\<rparr>,
          \<lparr>timestamp = 5000, color = ''#020000'', ffmpegMs = 50, vibrantMs = 3\<rparr>]"
  by (simp add: extractColorsFromFrames_batch[of _ _ _ "jpeg 1 @ jpeg 2 @ jpeg 3 @ jpeg 4" 50]
      fixedWorld_simps(1,6) parse_four frameMap_unordered fixed_colorTask fixed_colors)

text \<open>
  C2 as stated fails: three timestamps are requested, two frames are split from the stream,
  and the call succeeds with two results, for the first two timestamps.
\<close>

theorem undercount_returns_partial_batch:
  "parseJpegFrames (jpeg 1 @ jpeg 2 @ jpeg 3) = [jpeg 2, jpeg 3]
   \<and> snd (extractColorsFromFrames (fixedWorld (jpeg 1 @ jpeg 2 @ jpeg 3)) ''u''
         [1000, 2000, 3000])
   = Inr [\<lparr>timestamp = 1000, color = ''#020000'', ffmpegMs = 50, vibrantMs = 3\<rparr>,
          \<lparr>timestamp = 2000, color = ''#030000'', ffmpegMs = 50, vibrantMs = 3\<rparr>]"
  by (simp add: extractColorsFromFrames_batch[of _ _ _ "jpeg 1 @ jpeg 2 @ jpeg 3" 50]
      fixedWorld_simps(1,6) parse_three frameMap_short fixed_colorTask fixed_colors)

text \<open>
  C4 as stated fails: for the request \<open>[1000, 1000, 2000]\<close> and three frames, two results
  are returned, and the result for 1000 has the colour of the second frame.
\<close>

theorem duplicates_collapsed:
  "snd (extractColorsFromFrames (fixedWorld (jpeg 1 @ jpeg 2 @ jpeg 3 @ jpeg 4)) ''u''
         [1000, 1000, 2000])
   = Inr [\<lparr>timestamp = 1000, color = ''#030000'', ffmpegMs = 50, vibrantMs = 3\<rparr>,
          \<lparr>timestamp = 2000, color = ''#040000'', ffmpegMs = 50, vibrantMs = 3\<rparr>]"
  by (simp add: extractColorsFromFrames_batch[of _ _ _ "jpeg 1 @ jpeg 2 @ jpeg 3 @ jpeg 4" 50]
      fixedWorld_simps(1,6) parse_four frameMap_duplicate fixed_colorTask fixed_colors)

text \<open>
  C2, as the code has it. For two or more timestamps, when the decoder has delivered a stream
  from which \<open>M \<ge> 1\<close> frames are split and the palette of each frame yields a colour,
  the call succeeds, and it returns one result for each distinct timestamp among the first
  \<open>M\<close> requested: never more than \<open>min N M\<close> results, so fewer than requested when
  fewer frames were split. No error is raised for the timestamps left without a frame.
\<close>

theorem batch_result_count:
  assumes "isValidVideoUrl w url" "2 \<le> length tss"
    "pipeDecode w url (outputOptions (selectExpression w tss)) = Inr (output, ms)"
    "parseJpegFrames output \<noteq> []"
    "\<forall>f\<in>set (parseJpegFrames output). \<exists>c. extractDominantColor (getPalette w) f = Inr c"
  shows "\<exists>results. snd (extractColorsFromFrames w url tss) = Inr results
           \<and> set (map timestamp results) = set (take (length (parseJpegFrames output)) tss)
           \<and> length results = card (set (take (length (parseJpegFrames output)) tss))
           \<and> length results \<le> min (length tss) (length (parseJpegFrames output))"
proof -
  let ?frames = "parseJpegFrames output"
  let ?fm = "buildFrameMap tss ?frames"
  have "\<forall>(k, f)\<in>set ?fm. \<exists>c. extractDominantColor (getPalette w) f = Inr c"
    using assms(5) buildFrameMap_values by blast
  from promiseAll_colorTasks_ok[OF this] obtain xs where
    xs: "promiseAll (map (colorTask w ms) ?fm) = Inr xs" by blast
  then have m: "map (colorTask w ms) ?fm = map Inr xs" by (simp add: promiseAll_Inr_iff)
  have res: "snd (extractColorsFromFrames w url tss) = Inr (sort_key timestamp xs)"
    by (simp add: extractColorsFromFrames_batch[OF assms(1-3)] assms(4) xs)
  have ts: "map timestamp xs = map fst ?fm" by (rule colorTasks_Inr(1)[OF m])
  have s: "set (map timestamp (sort_key timestamp xs)) = set (take (length ?frames) tss)"
    using ts buildFrameMap_keys[of tss ?frames] by (metis set_map set_sort)
  have "length xs = length ?fm" using ts by (metis length_map)
  then have l: "length (sort_key timestamp xs) = card (set (take (length ?frames) tss))"
    by (simp add: buildFrameMap_length)
  have "card (set (take (length ?frames) tss)) \<le> length (take (length ?frames) tss)"
    by (rule card_length)
  then have b: "length (sort_key timestamp xs) \<le> min (length tss) (length ?frames)"
    using l by (simp add: min.commute)
  from res s l b show ?thesis by blast
qed

text \<open>
  Three timestamps, two frames: two results, for 1000 and 2000.
\<close>

theorem batch_result_count_witness:
  "\<exists>results. snd (extractColorsFromFrames (fixedWorld (jpeg 1 @ jpeg 2 @ jpeg 3)) ''u''
                    [1000, 2000, 3000]) = Inr results
      \<and> set (map timestamp results) = {1000, 2000} \<and> length results = 2"
proof -
  let ?w = "fixedWorld (jpeg 1 @ jpeg 2 @ jpeg 3)"
  have ok: "\<forall>f\<in>set (parseJpegFrames (jpeg 1 @ jpeg 2 @ jpeg 3)).
      \<exists>c. extractDominantColor (getPalette ?w) f = Inr c"
    by (simp add: parse_three fixed_extractDominantColor)
  have v: "isValidVideoUrl ?w ''u''" by (simp add: fixedWorld_simps)
  have n: "2 \<le> length [1000, 2000, 3000 :: real]" by simp
  have p: "pipeDecode ?w ''u'' (outputOptions (selectExpression ?w [1000, 2000, 3000]))
             = Inr (jpeg 1 @ jpeg 2 @ jpeg 3, 50)"
    by (simp add: fixedWorld_simps)
  have ne: "parseJpegFrames (jpeg 1 @ jpeg 2 @ jpeg 3) \<noteq> []" by (simp add: parse_three)
  from batch_result_count[OF v n p ne ok] obtain results where
    r: "snd (extractColorsFromFrames ?w ''u'' [1000, 2000, 3000]) = Inr results"
    and s: "set (map timestamp results)
              = set (take (length (parseJpegFrames (jpeg 1 @ jpeg 2 @ jpeg 3))) [1000, 2000, 3000])"
    and l: "length results
              = card (set (take (length (parseJpegFrames (jpeg 1 @ jpeg 2 @ jpeg 3))) [1000, 2000, 3000 :: real]))"
    by blast
  from s have s': "set (map timestamp results) = {1000, 2000}" by (simp add: parse_three)
  from l have l': "length results = 2" by (simp add: parse_three)
  from r s' l' show ?thesis by blast
qed

section \<open>Dominant swatch\<close>

lemma orElse_firstPresent: "orElse a (firstPresent rest) = firstPresent (a # rest)"
  by (cases a) (simp_all add: orElse_def)

lemma firstPresent_single: "firstPresent [a] = a"
  by (cases a) simp_all

lemma selectSwatch_firstPresent: "selectSwatch p = firstPresent (priorityOrder p)"
proof -
  have "selectSwatch p = orElse (Vibrant p) (orElse (Muted p) (orElse (DarkVibrant p)
       (orElse (DarkMuted p) (orElse (LightVibrant p) (firstPresent [LightMuted p])))))"
    by (simp only: selectSwatch_def firstPresent_single)
  then show ?thesis
    by (simp only: orElse_firstPresent priorityOrder_def)
qed

lemma firstPresent_None_iff: "firstPresent xs = None \<longleftrightarrow> (\<forall>x\<in>set xs. x = None)"
  by (induction xs rule: firstPresent.induct) simp_all

text \<open>
  C6. Given the palette of a frame, \<open>extractDominantColor\<close> returns the colour of the first
  swatch that is present in the order Vibrant, Muted, DarkVibrant, DarkMuted, LightVibrant,
  LightMuted, and it fails, with the no-swatch error, exactly when all six are absent.
\<close>

theorem extractDominantColor_priority:
  assumes "getPal imageBuffer = Inr p"
  shows "extractDominantColor getPal imageBuffer =
           (case firstPresent (priorityOrder p) of
              None \<Rightarrow> Inl noSwatchError
            | Some s \<Rightarrow> Inr (swatchHex s))
       \<and> ((\<exists>e. extractDominantColor getPal imageBuffer = Inl e) \<longleftrightarrow>
            Vibrant p = None \<and> Muted p = None \<and> DarkVibrant p = None \<and> DarkMuted p = None
            \<and> LightVibrant p = None \<and> LightMuted p = None)
       \<and> (extractDominantColor getPal imageBuffer = Inl noSwatchError \<longleftrightarrow>
            Vibrant p = None \<and> Muted p = None \<and> DarkVibrant p = None \<and> DarkMuted p = None
            \<and> LightVibrant p = None \<and> LightMuted p = None)"
proof -
  have eq: "extractDominantColor getPal imageBuffer =
           (case firstPresent (priorityOrder p) of
              None \<Rightarrow> Inl noSwatchError
            | Some s \<Rightarrow> Inr (swatchHex s))"
    by (simp add: extractDominantColor_def assms selectSwatch_firstPresent noSwatchError_def
        wrapExtractError_def swatchHex_def split: option.splits prod.splits)
  have none: "firstPresent (priorityOrder p) = None \<longleftrightarrow>
            Vibrant p = None \<and> Muted p = None \<and> DarkVibrant p = None \<and> DarkMuted p = None
            \<and> LightVibrant p = None \<and> LightMuted p = None"
    by (simp add: firstPresent_None_iff priorityOrder_def)
  have a: "(\<exists>e. extractDominantColor getPal imageBuffer = Inl e) \<longleftrightarrow>
            firstPresent (priorityOrder p) = None"
    by (simp add: eq split: option.splits)
  have b: "extractDominantColor getPal imageBuffer = Inl noSwatchError \<longleftrightarrow>
            firstPresent (priorityOrder p) = None"
    by (simp add: eq split: option.splits)
  from eq a b none show ?thesis by simp
qed

text \<open>
  A palette with only Muted and LightVibrant selects Muted; a palette with no swatch at all
  gives the no-swatch error.
\<close>

theorem extractDominantColor_priority_witness:
  "extractDominantColor (\<lambda>f. Inr mutedLightPalette) [] = Inr (rgbToHex 10 20 30)
   \<and> rgbToHex 10 20 30 = ''#0A141E''
   \<and> extractDominantColor (\<lambda>f. Inr emptyPalette) [] = Inl noSwatchError"
proof -
  have c: "rgbToHex 10 20 30 = ''#0A141E''"
    by (simp add: rgbToHex_def toHex_def toString16_def mathRound_def toHexNat.simps
      hexDigit_def toUpperCase_def upperChar_def)
  from extractDominantColor_priority[of "\<lambda>f. Inr mutedLightPalette" "[]" mutedLightPalette]
  have m: "extractDominantColor (\<lambda>f. Inr mutedLightPalette) [] = Inr (rgbToHex 10 20 30)"
    by (simp add: priorityOrder_def mutedLightPalette_def swatchHex_def)
  from extractDominantColor_priority[of "\<lambda>f. Inr emptyPalette" "[]" emptyPalette]
  have e: "extractDominantColor (\<lambda>f. Inr emptyPalette) [] = Inl noSwatchError"
    by (simp add: emptyPalette_def priorityOrder_def)
  from c m e show ?thesis by simp
qed

section \<open>Double arithmetic\<close>











subsection \<open>The rounding error\<close>
















section \<open>Single timestamp\<close>









section \<open>Selection predicate\<close>



























subsection \<open>The bounds of some timestamps, in doubles\<close>





















subsection \<open>The expression passed to the decoder\<close>









section \<open>Duplicate timestamps\<close>

lemma buildFrameMap_entry_iff:
  "(k, f) \<in> set (buildFrameMap tss frames)
   \<longleftrightarrow> (\<exists>i. lastIndexOf tss (min (length tss) (length frames)) k i \<and> frames ! i = f)"
proof -
  have "(k, f) \<in> set (buildFrameMap tss frames)
        \<longleftrightarrow> map_of (buildFrameMap tss frames) k = Some f"
    using buildFrameMap_distinct[of tss frames] by (auto dest: map_of_SomeD)
  then show ?thesis by (simp add: buildFrameMap_lookup)
qed

lemma colorTasks_ok:
  assumes "map (colorTask w fMs) fm = map Inr xs" "(k, f) \<in> set fm"
  shows "\<exists>c. extractDominantColor (getPalette w) f = Inr c"
proof -
  from assms(2) have "colorTask w fMs (k, f) \<in> set (map (colorTask w fMs) fm)" by force
  with assms(1) obtain x where "colorTask w fMs (k, f) = Inr x" by auto
  then show ?thesis by (auto simp: colorTask_Inr_iff)
qed

lemma extractMultipleFrames_batch_success:
  assumes "isValidVideoUrl w url" "2 \<le> length tss"
    "pipeDecode w url (outputOptions (selectExpression w tss)) = Inr (output, ms)"
    "snd (extractMultipleFrames w url tss) = Inr (fm, t)"
  shows "fm = buildFrameMap tss (parseJpegFrames output)" "parseJpegFrames output \<noteq> []"
  using assms(4) unfolding extractMultipleFrames_batch[OF assms(1,2)] assms(3)
  by (auto simp: noFramesError_def split: if_splits)

text \<open>
  C4, as the code has it. The map from timestamps to frames has exactly one entry for each
  distinct timestamp among the positions that received a frame, and the entry holds the
  frame at the position where that timestamp occurs last. A batch call succeeds exactly when
  at least one frame was split and the palette of every frame in the map yields a colour;
  then it returns exactly one result for each of those distinct timestamps, with the colour
  of the frame in the map.
\<close>

theorem duplicate_last_frame_wins:
  assumes "isValidVideoUrl w url" "2 \<le> length tss"
    "pipeDecode w url (outputOptions (selectExpression w tss)) = Inr (output, ms)"
  shows "(\<forall>fm t. snd (extractMultipleFrames w url tss) = Inr (fm, t) \<longrightarrow>
            distinct (map fst fm)
            \<and> set (map fst fm) = set (take (length (parseJpegFrames output)) tss)
            \<and> (\<forall>(k, f)\<in>set fm. \<exists>i.
                  lastIndexOf tss (min (length tss) (length (parseJpegFrames output))) k i
                  \<and> f = parseJpegFrames output ! i))
       \<and> (\<forall>results. snd (extractColorsFromFrames w url tss) = Inr results \<longrightarrow>
            distinct (map timestamp results)
            \<and> set (map timestamp results) = set (take (length (parseJpegFrames output)) tss)
            \<and> length results = card (set (take (length (parseJpegFrames output)) tss))
            \<and> (\<forall>r\<in>set results. \<exists>i.
                  lastIndexOf tss (min (length tss) (length (parseJpegFrames output))) (timestamp r) i
                  \<and> extractDominantColor (getPalette w) (parseJpegFrames output ! i) = Inr (color r)))
       \<and> ((\<exists>results. snd (extractColorsFromFrames w url tss) = Inr results) \<longleftrightarrow>
            parseJpegFrames output \<noteq> []
            \<and> (\<forall>k i. lastIndexOf tss (min (length tss) (length (parseJpegFrames output))) k i \<longrightarrow>
                  (\<exists>c. extractDominantColor (getPalette w) (parseJpegFrames output ! i) = Inr c)))"
proof -
  let ?frames = "parseJpegFrames output"
  let ?fm = "buildFrameMap tss ?frames"
  let ?b = "min (length tss) (length ?frames)"
  have p1: "distinct (map fst fm)
            \<and> set (map fst fm) = set (take (length ?frames) tss)
            \<and> (\<forall>(k, f)\<in>set fm. \<exists>i. lastIndexOf tss ?b k i \<and> f = ?frames ! i)"
    if "snd (extractMultipleFrames w url tss) = Inr (fm, t)" for fm t
  proof -
    from extractMultipleFrames_batch_success(1)[OF assms that] have fm: "fm = ?fm" .
    show ?thesis unfolding fm
      using buildFrameMap_distinct[of tss ?frames] buildFrameMap_keys[of tss ?frames]
        buildFrameMap_entry[of _ _ tss ?frames]
      by fastforce
  qed
  have p2: "distinct (map timestamp results)
            \<and> set (map timestamp results) = set (take (length ?frames) tss)
            \<and> length results = card (set (take (length ?frames) tss))
            \<and> (\<forall>r\<in>set results. \<exists>i. lastIndexOf tss ?b (timestamp r) i
                  \<and> extractDominantColor (getPalette w) (?frames ! i) = Inr (color r))"
    if "snd (extractColorsFromFrames w url tss) = Inr results" for results
  proof -
    from extractColorsFromFrames_success[OF assms that] obtain xs where
      m: "map (colorTask w ms) ?fm = map Inr xs" and r: "results = sort_key timestamp xs"
      by blast
    have ts: "map timestamp xs = map fst ?fm" by (rule colorTasks_Inr(1)[OF m])
    have "distinct (map timestamp xs)" by (simp add: ts buildFrameMap_distinct)
    then have d: "distinct (map timestamp results)"
      unfolding r by (metis distinct_map distinct_sort set_sort)
    have s: "set (map timestamp results) = set (take (length ?frames) tss)"
      unfolding r using ts buildFrameMap_keys[of tss ?frames] by (metis set_map set_sort)
    have "length xs = length ?fm" using ts by (metis length_map)
    then have l: "length results = card (set (take (length ?frames) tss))"
      by (simp add: r buildFrameMap_length)
    have c: "\<exists>i. lastIndexOf tss ?b (timestamp x) i
             \<and> extractDominantColor (getPalette w) (?frames ! i) = Inr (color x)"
      if "x \<in> set results" for x
    proof -
      from that have "x \<in> set xs" by (simp add: r)
      with colorTasks_Inr(2)[OF m] obtain f where
        f: "(timestamp x, f) \<in> set ?fm" "extractDominantColor (getPalette w) f = Inr (color x)"
        by blast
      from buildFrameMap_entry[OF f(1)] f(2) show ?thesis by blast
    qed
    from d s l c show ?thesis by blast
  qed
  have p3: "(\<exists>results. snd (extractColorsFromFrames w url tss) = Inr results) \<longleftrightarrow>
            ?frames \<noteq> []
            \<and> (\<forall>k i. lastIndexOf tss ?b k i \<longrightarrow>
                  (\<exists>c. extractDominantColor (getPalette w) (?frames ! i) = Inr c))"
  proof
    assume "\<exists>results. snd (extractColorsFromFrames w url tss) = Inr results"
    then obtain results where res: "snd (extractColorsFromFrames w url tss) = Inr results" ..
    from extractColorsFromFrames_success[OF assms res] obtain xs where
      m: "map (colorTask w ms) ?fm = map Inr xs" and ne: "?frames \<noteq> []"
      by blast
    have "\<exists>c. extractDominantColor (getPalette w) (?frames ! i) = Inr c"
      if "lastIndexOf tss ?b k i" for k i
    proof -
      from that have "(k, ?frames ! i) \<in> set ?fm" unfolding buildFrameMap_entry_iff by blast
      from colorTasks_ok[OF m this] show ?thesis .
    qed
    with ne show "?frames \<noteq> [] \<and> (\<forall>k i. lastIndexOf tss ?b k i \<longrightarrow>
                  (\<exists>c. extractDominantColor (getPalette w) (?frames ! i) = Inr c))"
      by blast
  next
    assume h: "?frames \<noteq> [] \<and> (\<forall>k i. lastIndexOf tss ?b k i \<longrightarrow>
                  (\<exists>c. extractDominantColor (getPalette w) (?frames ! i) = Inr c))"
    have "\<exists>c. extractDominantColor (getPalette w) f = Inr c" if "(k, f) \<in> set ?fm" for k f
    proof -
      from that obtain i where "lastIndexOf tss ?b k i" "?frames ! i = f"
        unfolding buildFrameMap_entry_iff by blast
      with h show ?thesis by blast
    qed
    then have "\<forall>(k, f)\<in>set ?fm. \<exists>c. extractDominantColor (getPalette w) f = Inr c"
      by auto
    from promiseAll_colorTasks_ok[OF this] obtain xs where
      "promiseAll (map (colorTask w ms) ?fm) = Inr xs" by blast
    with h show "\<exists>results. snd (extractColorsFromFrames w url tss) = Inr results"
      by (simp add: extractColorsFromFrames_batch[OF assms])
  qed
  from p1 p2 p3 show ?thesis by blast
qed

text \<open>
  For \<open>[1000, 1000, 2000]\<close> and three frames the call succeeds with two results, for 1000
  and 2000; the last position of 1000 is the second, and the result for 1000 has the colour
  of the second frame.
\<close>

theorem duplicate_last_frame_wins_witness:
  "\<exists>results. snd (extractColorsFromFrames (fixedWorld (jpeg 1 @ jpeg 2 @ jpeg 3 @ jpeg 4)) ''u''
                    [1000, 1000, 2000]) = Inr results
      \<and> distinct (map timestamp results)
      \<and> set (map timestamp results) = {1000, 2000}
      \<and> length results = 2
      \<and> (\<exists>r. r \<in> set results \<and> timestamp r = 1000 \<and> color r = ''#030000'')"
proof -
  let ?out = "jpeg 1 @ jpeg 2 @ jpeg 3 @ jpeg 4"
  let ?w = "fixedWorld ?out"
  let ?tss = "[1000, 1000, 2000 :: real]"
  have v: "isValidVideoUrl ?w ''u''" by (simp add: fixedWorld_simps)
  have n: "2 \<le> length ?tss" by simp
  have p: "pipeDecode ?w ''u'' (outputOptions (selectExpression ?w ?tss)) = Inr (?out, 50)"
    by (simp add: fixedWorld_simps)
  note t = duplicate_last_frame_wins[OF v n p]
  have ok: "\<exists>c. extractDominantColor (getPalette ?w) (parseJpegFrames ?out ! i) = Inr c"
    if "lastIndexOf ?tss (min (length ?tss) (length (parseJpegFrames ?out))) k i" for k i
  proof -
    from that have "i < 3" by (simp add: lastIndexOf_def parse_four)
    then have "i = 0 \<or> i = 1 \<or> i = 2" by auto
    then show ?thesis by (auto simp: parse_four fixed_extractDominantColor)
  qed
  have ne: "parseJpegFrames ?out \<noteq> []" by (simp add: parse_four)
  from t ne ok obtain results where
    res: "snd (extractColorsFromFrames ?w ''u'' ?tss) = Inr results" by blast
  from t res have d: "distinct (map timestamp results)"
    and s: "set (map timestamp results) = set (take (length (parseJpegFrames ?out)) ?tss)"
    and l: "length results = card (set (take (length (parseJpegFrames ?out)) ?tss))"
    and c: "\<forall>r\<in>set results. \<exists>i.
              lastIndexOf ?tss (min (length ?tss) (length (parseJpegFrames ?out))) (timestamp r) i
              \<and> extractDominantColor (getPalette ?w) (parseJpegFrames ?out ! i) = Inr (color r)"
    by blast+
  from s have s': "set (map timestamp results) = {1000, 2000}" by (simp add: parse_four)
  from l have l': "length results = 2" by (simp add: parse_four)
  from s' have "1000 \<in> set (map timestamp results)" by simp
  then obtain r where r: "r \<in> set results" "timestamp r = 1000" by auto
  from c r(1) have "\<exists>i. lastIndexOf ?tss (min (length ?tss) (length (parseJpegFrames ?out))) (timestamp r) i
              \<and> extractDominantColor (getPalette ?w) (parseJpegFrames ?out ! i) = Inr (color r)"
    by blast
  then obtain i where
    i: "lastIndexOf ?tss (min (length ?tss) (length (parseJpegFrames ?out))) 1000 i"
    and col: "extractDominantColor (getPalette ?w) (parseJpegFrames ?out ! i) = Inr (color r)"
    unfolding r(2) by blast
  from i have i3: "i < 3" and at: "?tss ! i = 1000"
    and later: "\<forall>j. i < j \<and> j < 3 \<longrightarrow> ?tss ! j \<noteq> 1000"
    by (simp_all add: lastIndexOf_def parse_four)
  from i3 have "i = 0 \<or> i = 1 \<or> i = 2" by auto
  moreover from later have "i \<noteq> 0" by (auto dest: spec[of _ 1])
  moreover from at have "i \<noteq> 2" by auto
  ultimately have "i = 1" by blast
  with col have "color r = ''#030000''"
    by (simp add: parse_four fixed_extractDominantColor fixed_colors)
  with res d s' l' r show ?thesis by blast
qed

end
